theory Spec2Isabelle
  imports Complex_Main "HOL-Library.Word"
begin

unbundle bit_operations_syntax

section \<open>Data model of \<open>GroupedSIMDElastic\<close>\<close>

text \<open>
  The class of \<open>grouped_simd_elastic.hpp\<close> is a record; \<open>insert\<close> and \<open>find\<close> take the
  record and \<open>insert\<close> returns the updated one together with its boolean result.

  Conventions of the embedding:
  \<^item> \<open>uint8_t\<close> and \<open>uint64_t\<close> are \<open>8 word\<close> and \<open>64 word\<close>; the sum \<open>h + GROUP_SIZE * group_idx\<close>
    of \<open>group_base\<close> wraps modulo \<open>2 ^ 64\<close> as it does in the source.
  \<^item> \<open>size_t\<close> quantities that are bounded by the capacity (indices, sizes, group counts) are
    \<open>nat\<close>; the capacity is assumed to stay below \<open>2 ^ 64 - 16\<close>, so that \<open>base + GROUP_SIZE\<close>
    does not wrap.
  \<^item> \<open>double\<close> arithmetic is idealised as arithmetic on \<open>real\<close>; the conversion
    \<open>static_cast<size_t>\<close> of a non-negative double truncates, which is \<open>nat \<lfloor>_\<rfloor>\<close>.
  \<^item> the 16-bit result of \<open>_mm_movemask_epi8 (_mm_cmpeq_epi8 ...)\<close> is the ascending list of
    its set bit positions; the loop \<open>while (mask != 0) { ctz; ...; mask &= mask - 1; }\<close> visits
    exactly these positions in ascending order, and \<open>mask != 0\<close> is \<open>mask \<noteq> []\<close>.
  \<^item> a \<open>V*\<close> returned by \<open>find\<close> is the index of the entry it points into, \<open>nullptr\<close> is \<open>None\<close>.
\<close>

type_synonym u8 = "8 word"
type_synonym u64 = "64 word"

record ('k, 'v) Entry =
  key :: 'k
  val :: 'v

record ('k, 'v) GroupedSIMDElastic =
  metadata :: "u8 list"
  table :: "('k, 'v) Entry list"
  capacity :: nat
  size_n :: nat
  max_inserts :: nat
  delta :: real
  max_probe_limit :: nat
  max_group_used :: nat
  salt :: u64
  hasher :: "'k \<Rightarrow> u64"

record Candidate =
  group_idx :: nat
  slot_offset :: nat
  table_idx :: nat

datatype error = InvalidArgument string

datatype scan = Found nat | NotPresent | NextGroup

definition C_const :: real where
  "C_const = 4.0"

definition GROUP_SIZE :: nat where
  "GROUP_SIZE = 16"

definition EARLY_EXIT_GROUPS :: nat where
  "EARLY_EXIT_GROUPS = 1"

definition EMPTY :: u8 where
  "EMPTY = 0x00"

definition OCCUPIED_BIT :: u8 where
  "OCCUPIED_BIT = 0x80"

section \<open>Hashing and the probe schedule\<close>

definition hash_with_salt :: "('k, 'v) GroupedSIMDElastic \<Rightarrow> 'k \<Rightarrow> u64" where
  "hash_with_salt s k = hasher s k XOR salt s"

definition hash_fragment :: "u64 \<Rightarrow> u8" where
  "hash_fragment h = ucast (drop_bit 57 h AND 0x7F)"

definition make_metadata :: "u64 \<Rightarrow> u8" where
  "make_metadata h = OCCUPIED_BIT OR hash_fragment h"

definition group_base :: "nat \<Rightarrow> u64 \<Rightarrow> nat \<Rightarrow> nat" where
  "group_base cap h g = unat (h + word_of_nat GROUP_SIZE * word_of_nat g) mod cap"

definition slot_in_group :: "nat \<Rightarrow> nat \<Rightarrow> nat \<Rightarrow> nat" where
  "slot_in_group cap base offset = (base + offset) mod cap"

definition max_groups :: "('k, 'v) GroupedSIMDElastic \<Rightarrow> nat" where
  "max_groups s =
     (let max_g = (max_probe_limit s + GROUP_SIZE - 1) div GROUP_SIZE;
          max_possible = (capacity s + GROUP_SIZE - 1) div GROUP_SIZE
      in if max_g < max_possible then max_g else max_possible)"

section \<open>Construction\<close>

text \<open>
  The constructor. \<open>rd\<close> is the value drawn from \<open>std::random_device\<close>, \<open>hf\<close> the hasher
  object and \<open>e0\<close> the value-initialised \<open>Entry\<close> that fills the fresh table.
\<close>

definition clamp_probe_limit :: "nat \<Rightarrow> nat \<Rightarrow> nat" where
  "clamp_probe_limit cap p =
     (let p1 = (if p < GROUP_SIZE then GROUP_SIZE else p)
      in if p1 > cap then cap else p1)"

definition construct ::
  "nat \<Rightarrow> real \<Rightarrow> u64 \<Rightarrow> ('k \<Rightarrow> u64) \<Rightarrow> ('k, 'v) Entry \<Rightarrow> error + ('k, 'v) GroupedSIMDElastic" where
  "construct cap d rd hf e0 =
     (if cap = 0 then Inl (InvalidArgument ''Capacity must be positive'')
      else if d \<le> 0 \<or> d \<ge> 1 then Inl (InvalidArgument ''Delta must be in (0,1)'')
      else Inr \<lparr> metadata = replicate cap EMPTY,
                 table = replicate cap e0,
                 capacity = cap,
                 size_n = 0,
                 max_inserts = cap - nat \<lfloor>d * real cap\<rfloor>,
                 delta = d,
                 max_probe_limit = clamp_probe_limit cap (nat \<lfloor>C_const * log 2 (1.0 / d)\<rfloor>),
                 max_group_used = 0,
                 salt = rd,
                 hasher = hf \<rparr>)"

section \<open>Group scanning\<close>

text \<open>
  \<open>movemask_eq md base x\<close>: the bits of the mask obtained by comparing the 16 metadata bytes
  at \<open>base .. base + 15\<close> with the broadcast byte \<open>x\<close>.
\<close>

definition movemask_eq :: "u8 list \<Rightarrow> nat \<Rightarrow> u8 \<Rightarrow> nat list" where
  "movemask_eq md base x = filter (\<lambda>bit_idx. md ! (base + bit_idx) = x) [0..<GROUP_SIZE]"

text \<open>The loop over \<open>match_mask\<close>: the index of the first matching byte whose key is \<open>k\<close>.\<close>

fun match_loop :: "('k, 'v) Entry list \<Rightarrow> 'k \<Rightarrow> nat \<Rightarrow> nat list \<Rightarrow> nat option" where
  "match_loop tab k base [] = None"
| "match_loop tab k base (bit_idx # rest) =
     (let idx = base + bit_idx
      in if key (tab ! idx) = k then Some idx else match_loop tab k base rest)"

section \<open>Insertion\<close>

text \<open>The two ways \<open>insert\<close> writes: a new entry at an empty slot, or a new value for a stored key.\<close>

definition store_new ::
  "('k, 'v) GroupedSIMDElastic \<Rightarrow> nat \<Rightarrow> u8 \<Rightarrow> 'k \<Rightarrow> 'v \<Rightarrow> nat \<Rightarrow> ('k, 'v) GroupedSIMDElastic" where
  "store_new s idx meta k v grp =
     s\<lparr> metadata := (metadata s)[idx := meta],
        table := (table s)[idx := \<lparr>key = k, val = v\<rparr>],
        size_n := size_n s + 1,
        max_group_used := (if grp > max_group_used s then grp else max_group_used s) \<rparr>"

definition overwrite ::
  "('k, 'v) GroupedSIMDElastic \<Rightarrow> nat \<Rightarrow> 'v \<Rightarrow> ('k, 'v) GroupedSIMDElastic" where
  "overwrite s idx v = s\<lparr> table := (table s)[idx := (table s ! idx)\<lparr>val := v\<rparr>] \<rparr>"

text \<open>
  The scalar slot-by-slot loop of the wrapping first group and of the fallback scan
  (the same loop body in the source, with group index \<open>0\<close> and \<open>g\<close>).
\<close>

fun scalar_place ::
  "('k, 'v) GroupedSIMDElastic \<Rightarrow> 'k \<Rightarrow> 'v \<Rightarrow> u8 \<Rightarrow> nat \<Rightarrow> nat \<Rightarrow> nat list
     \<Rightarrow> ('k, 'v) GroupedSIMDElastic option" where
  "scalar_place s k v meta base g [] = None"
| "scalar_place s k v meta base g (i # rest) =
     (let idx = slot_in_group (capacity s) base i
      in if metadata s ! idx = EMPTY then Some (store_new s idx meta k v g)
         else if metadata s ! idx = meta \<and> key (table s ! idx) = k then Some (overwrite s idx v)
         else scalar_place s k v meta base g rest)"

text \<open>The greedy pass over group 0; \<open>None\<close> when the group is full of other keys.\<close>

definition insert_group0 ::
  "('k, 'v) GroupedSIMDElastic \<Rightarrow> 'k \<Rightarrow> 'v \<Rightarrow> u64 \<Rightarrow> u8 \<Rightarrow> ('k, 'v) GroupedSIMDElastic option" where
  "insert_group0 s k v h meta =
     (let base0 = group_base (capacity s) h 0
      in if base0 + GROUP_SIZE \<le> capacity s then
           (let empty_mask = movemask_eq (metadata s) base0 EMPTY;
                match_mask = movemask_eq (metadata s) base0 meta
            in case match_loop (table s) k base0 match_mask of
                 Some idx \<Rightarrow> Some (overwrite s idx v)
               | None \<Rightarrow>
                   (case empty_mask of
                      bit_idx # _ \<Rightarrow> Some (store_new s (base0 + bit_idx) meta k v 0)
                    | [] \<Rightarrow> None))
         else scalar_place s k v meta base0 0 [0..<GROUP_SIZE])"

text \<open>
  Candidate collection. The result is the index of a stored key \<open>k\<close> if the scan met one,
  and the contents of the \<open>candidates\<close> buffer at that moment (\<open>num_candidates\<close> is its length;
  every write goes to the position \<open>length cands\<close>).
\<close>

fun collect_scalar ::
  "('k, 'v) GroupedSIMDElastic \<Rightarrow> 'k \<Rightarrow> u8 \<Rightarrow> nat \<Rightarrow> nat \<Rightarrow> nat list \<Rightarrow> Candidate list
     \<Rightarrow> nat option \<times> Candidate list" where
  "collect_scalar s k meta base g [] cands = (None, cands)"
| "collect_scalar s k meta base g (i # rest) cands =
     (let idx = slot_in_group (capacity s) base i
      in if metadata s ! idx = EMPTY then
           collect_scalar s k meta base g rest
             (cands @ [\<lparr>group_idx = g, slot_offset = i, table_idx = idx\<rparr>])
         else if metadata s ! idx = meta \<and> key (table s ! idx) = k then (Some idx, cands)
         else collect_scalar s k meta base g rest cands)"

definition collect_group ::
  "('k, 'v) GroupedSIMDElastic \<Rightarrow> 'k \<Rightarrow> u64 \<Rightarrow> u8 \<Rightarrow> nat \<Rightarrow> Candidate list
     \<Rightarrow> nat option \<times> Candidate list" where
  "collect_group s k h meta g cands =
     (let base = group_base (capacity s) h g
      in if base + GROUP_SIZE \<le> capacity s then
           (let empty_mask = movemask_eq (metadata s) base EMPTY;
                match_mask = movemask_eq (metadata s) base meta
            in case match_loop (table s) k base match_mask of
                 Some idx \<Rightarrow> (Some idx, cands)
               | None \<Rightarrow>
                   (None, cands @ map (\<lambda>bit_idx. \<lparr>group_idx = g, slot_offset = bit_idx,
                                                  table_idx = base + bit_idx\<rparr>) empty_mask))
         else collect_scalar s k meta base g [0..<GROUP_SIZE] cands)"

text \<open>
  The loop \<open>for (g = EARLY_EXIT_GROUPS; g < max_groups_to_check && num_candidates < 128; ++g)\<close>
  over the list of its group indices; \<open>cap\<close> is the size of the buffer (128 in \<open>insert\<close>).
\<close>

fun collect_candidates ::
  "nat \<Rightarrow> ('k, 'v) GroupedSIMDElastic \<Rightarrow> 'k \<Rightarrow> u64 \<Rightarrow> u8 \<Rightarrow> nat list \<Rightarrow> Candidate list
     \<Rightarrow> nat option \<times> Candidate list" where
  "collect_candidates cap s k h meta [] cands = (None, cands)"
| "collect_candidates cap s k h meta (g # gs) cands =
     (if length cands < cap then
        (case collect_group s k h meta g cands of
           (Some idx, cands') \<Rightarrow> (Some idx, cands')
         | (None, cands') \<Rightarrow> collect_candidates cap s k h meta gs cands')
      else (None, cands))"

text \<open>The selection loop over the candidates, started with \<open>best_i = 0\<close>.\<close>

fun best_candidate :: "Candidate \<Rightarrow> Candidate list \<Rightarrow> Candidate" where
  "best_candidate best [] = best"
| "best_candidate best (c # cs) =
     (if group_idx c < group_idx best \<or>
         (group_idx c = group_idx best \<and> slot_offset c < slot_offset best)
      then best_candidate c cs else best_candidate best cs)"

fun fallback_scan ::
  "('k, 'v) GroupedSIMDElastic \<Rightarrow> 'k \<Rightarrow> 'v \<Rightarrow> u64 \<Rightarrow> u8 \<Rightarrow> nat list
     \<Rightarrow> bool \<times> ('k, 'v) GroupedSIMDElastic" where
  "fallback_scan s k v h meta [] = (False, s)"
| "fallback_scan s k v h meta (g # gs) =
     (case scalar_place s k v meta (group_base (capacity s) h g) g [0..<GROUP_SIZE] of
        Some s' \<Rightarrow> (True, s')
      | None \<Rightarrow> fallback_scan s k v h meta gs)"

definition max_groups_to_check :: "('k, 'v) GroupedSIMDElastic \<Rightarrow> nat" where
  "max_groups_to_check s =
     (let load = real (size_n s) / real (capacity s);
          m = (if load > 0.8 then 8 else 4);
          total_groups = max_groups s
      in if m > total_groups then total_groups else m)"

definition candidate_phase ::
  "('k, 'v) GroupedSIMDElastic \<Rightarrow> 'k \<Rightarrow> nat option \<times> Candidate list" where
  "candidate_phase s k =
     (let h = hash_with_salt s k
      in collect_candidates 128 s k h (make_metadata h)
           [EARLY_EXIT_GROUPS..<max_groups_to_check s] [])"

definition insert_kv ::
  "('k, 'v) GroupedSIMDElastic \<Rightarrow> 'k \<Rightarrow> 'v \<Rightarrow> bool \<times> ('k, 'v) GroupedSIMDElastic" where
  "insert_kv s k v =
     (if size_n s \<ge> max_inserts s then (False, s)
      else
        (let h = hash_with_salt s k; meta = make_metadata h
         in case insert_group0 s k v h meta of
              Some s' \<Rightarrow> (True, s')
            | None \<Rightarrow>
                (case candidate_phase s k of
                   (Some idx, cands) \<Rightarrow> (True, overwrite s idx v)
                 | (None, c # cs) \<Rightarrow>
                     (let best = best_candidate c cs
                      in (True, store_new s (table_idx best) meta k v (group_idx best)))
                 | (None, []) \<Rightarrow>
                     fallback_scan s k v h meta [max_groups_to_check s..<max_groups s])))"

section \<open>Lookup\<close>

fun find_scalar ::
  "('k, 'v) GroupedSIMDElastic \<Rightarrow> 'k \<Rightarrow> u8 \<Rightarrow> nat \<Rightarrow> nat list \<Rightarrow> scan" where
  "find_scalar s k meta base [] = NextGroup"
| "find_scalar s k meta base (i # rest) =
     (let idx = slot_in_group (capacity s) base i; m = metadata s ! idx
      in if m = EMPTY then NotPresent
         else if m = meta \<and> key (table s ! idx) = k then Found idx
         else find_scalar s k meta base rest)"

definition find_simd :: "('k, 'v) GroupedSIMDElastic \<Rightarrow> 'k \<Rightarrow> u8 \<Rightarrow> nat \<Rightarrow> scan" where
  "find_simd s k meta base =
     (let empty_mask = movemask_eq (metadata s) base EMPTY;
          match_mask = movemask_eq (metadata s) base meta
      in case match_loop (table s) k base match_mask of
           Some idx \<Rightarrow> Found idx
         | None \<Rightarrow> if empty_mask \<noteq> [] then NotPresent else NextGroup)"

definition find_group :: "('k, 'v) GroupedSIMDElastic \<Rightarrow> 'k \<Rightarrow> u64 \<Rightarrow> u8 \<Rightarrow> nat \<Rightarrow> scan" where
  "find_group s k h meta g =
     (let base = group_base (capacity s) h g
      in if base + GROUP_SIZE \<le> capacity s then find_simd s k meta base
         else find_scalar s k meta base [0..<GROUP_SIZE])"

fun find_loop ::
  "('k, 'v) GroupedSIMDElastic \<Rightarrow> 'k \<Rightarrow> u64 \<Rightarrow> u8 \<Rightarrow> nat list \<Rightarrow> nat option" where
  "find_loop s k h meta [] = None"
| "find_loop s k h meta (g # gs) =
     (case find_group s k h meta g of
        Found idx \<Rightarrow> Some idx
      | NotPresent \<Rightarrow> None
      | NextGroup \<Rightarrow> find_loop s k h meta gs)"

definition find_kv :: "('k, 'v) GroupedSIMDElastic \<Rightarrow> 'k \<Rightarrow> nat option" where
  "find_kv s k =
     (let h = hash_with_salt s k; meta = make_metadata h;
          groups_to_check = max_group_used s + 1
      in find_loop s k h meta [0..<groups_to_check])"

definition find_value :: "('k, 'v) GroupedSIMDElastic \<Rightarrow> 'k \<Rightarrow> 'v option" where
  "find_value s k = map_option (\<lambda>idx. val (table s ! idx)) (find_kv s k)"

text \<open>
  \<open>operator[]\<close>: find; if absent, insert the default value \<open>dflt\<close> and find again. The result
  is the entry the returned reference points into (\<open>None\<close>: the source dereferences a null
  pointer) and the container afterwards.
\<close>

definition index_op ::
  "('k, 'v) GroupedSIMDElastic \<Rightarrow> 'k \<Rightarrow> 'v \<Rightarrow> nat option \<times> ('k, 'v) GroupedSIMDElastic" where
  "index_op s k dflt =
     (case find_kv s k of
        Some idx \<Rightarrow> (Some idx, s)
      | None \<Rightarrow> (let s' = snd (insert_kv s k dflt) in (find_kv s' k, s')))"

section \<open>Reachable states\<close>

inductive reachable :: "('k, 'v) GroupedSIMDElastic \<Rightarrow> bool" where
  reachable_construct: "construct cap d rd hf e0 = Inr s \<Longrightarrow> reachable s"
| reachable_insert: "reachable s \<Longrightarrow> reachable (snd (insert_kv s k v))"

section \<open>Notions used to state and prove the properties\<close>

text \<open>
  \<open>probe cap h g i\<close> is the slot at offset \<open>i\<close> of group \<open>g\<close> in the probe sequence of the
  salted hash \<open>h\<close>. A slot is \<open>free_at\<close> when its metadata byte is \<open>EMPTY\<close>, a \<open>hit_at\<close> for
  key \<open>k\<close> when its byte is \<open>meta\<close> and its entry has key \<open>k\<close>, and \<open>blocked\<close> when it is
  neither. \<open>all_before P cap h g i\<close>: \<open>P\<close> holds at every probe position that comes before
  offset \<open>i\<close> of group \<open>g\<close>.
\<close>

definition probe :: "nat \<Rightarrow> u64 \<Rightarrow> nat \<Rightarrow> nat \<Rightarrow> nat" where
  "probe cap h g i = slot_in_group cap (group_base cap h g) i"

definition free_at :: "('k, 'v) GroupedSIMDElastic \<Rightarrow> nat \<Rightarrow> bool" where
  "free_at s idx \<longleftrightarrow> metadata s ! idx = EMPTY"

definition hit_at :: "('k, 'v) GroupedSIMDElastic \<Rightarrow> 'k \<Rightarrow> u8 \<Rightarrow> nat \<Rightarrow> bool" where
  "hit_at s k meta idx \<longleftrightarrow> metadata s ! idx = meta \<and> key (table s ! idx) = k"

definition blocked :: "('k, 'v) GroupedSIMDElastic \<Rightarrow> 'k \<Rightarrow> u8 \<Rightarrow> nat \<Rightarrow> bool" where
  "blocked s k meta idx \<longleftrightarrow> \<not> free_at s idx \<and> \<not> hit_at s k meta idx"

definition all_before :: "(nat \<Rightarrow> bool) \<Rightarrow> nat \<Rightarrow> u64 \<Rightarrow> nat \<Rightarrow> nat \<Rightarrow> bool" where
  "all_before P cap h g i \<longleftrightarrow>
     (\<forall>g'<g. \<forall>i'<16. P (probe cap h g' i')) \<and> (\<forall>i'<i. P (probe cap h g i'))"

text \<open>The candidate that \<open>insert\<close> records for an empty slot, and the order of the selection loop.\<close>

definition mk_candidate :: "nat \<Rightarrow> u64 \<Rightarrow> nat \<Rightarrow> nat \<Rightarrow> Candidate" where
  "mk_candidate cap h g i = \<lparr>group_idx = g, slot_offset = i, table_idx = probe cap h g i\<rparr>"

definition window_free :: "('k, 'v) GroupedSIMDElastic \<Rightarrow> u64 \<Rightarrow> nat list \<Rightarrow> Candidate set" where
  "window_free s h gs =
     {mk_candidate (capacity s) h g i | g i. g \<in> set gs \<and> i < 16 \<and> free_at s (probe (capacity s) h g i)}"

definition lex_less :: "Candidate \<Rightarrow> Candidate \<Rightarrow> bool" where
  "lex_less c b \<longleftrightarrow> group_idx c < group_idx b \<or>
                    (group_idx c = group_idx b \<and> slot_offset c < slot_offset b)"

text \<open>
  The invariant of a container. Every occupied slot carries the metadata byte of its key and
  lies at some probe position of that key within the first \<open>max_group_used + 1\<close> groups, with
  no empty slot at any earlier position; no key is stored twice; \<open>size\<close> counts the occupied
  slots and stays below the cap fixed at construction.
\<close>

definition stored_ok :: "('k, 'v) GroupedSIMDElastic \<Rightarrow> nat \<Rightarrow> bool" where
  "stored_ok s idx \<longleftrightarrow>
     (let k = key (table s ! idx); h = hash_with_salt s k
      in metadata s ! idx = make_metadata h \<and>
         (\<exists>g i. g \<le> max_group_used s \<and> i < 16 \<and> probe (capacity s) h g i = idx
                \<and> all_before (\<lambda>j. \<not> free_at s j) (capacity s) h g i))"

definition table_inv :: "('k, 'v) GroupedSIMDElastic \<Rightarrow> bool" where
  "table_inv s \<longleftrightarrow>
     0 < capacity s \<and> length (metadata s) = capacity s \<and> length (table s) = capacity s
     \<and> max_group_used s < max_groups s
     \<and> (\<forall>idx<capacity s. \<not> free_at s idx \<longrightarrow> stored_ok s idx)
     \<and> (\<forall>i<capacity s. \<forall>j<capacity s.
           \<not> free_at s i \<and> \<not> free_at s j \<and> key (table s ! i) = key (table s ! j) \<longrightarrow> i = j)
     \<and> size_n s = length (filter (\<lambda>m. m \<noteq> EMPTY) (metadata s))
     \<and> size_n s \<le> max_inserts s
     \<and> max_inserts s = capacity s - nat \<lfloor>delta s * real (capacity s)\<rfloor>
     \<and> 0 < delta s \<and> delta s < 1"

text \<open>
  The SIMD path of \<open>find\<close> as the specification words it, on an arbitrary list of slots:
  first go through the slots whose byte matches and return the first whose key is \<open>k\<close>;
  otherwise report absence if some slot of the group is empty, else go on to the next group.
\<close>

definition simd_scan_slots ::
  "('k, 'v) GroupedSIMDElastic \<Rightarrow> 'k \<Rightarrow> u8 \<Rightarrow> nat list \<Rightarrow> scan" where
  "simd_scan_slots s k meta slots =
     (let empty_mask = filter (\<lambda>idx. metadata s ! idx = EMPTY) slots;
          match_mask = filter (\<lambda>idx. metadata s ! idx = meta) slots
      in case List.find (\<lambda>idx. key (table s ! idx) = k) match_mask of
           Some idx \<Rightarrow> Found idx
         | None \<Rightarrow> if empty_mask \<noteq> [] then NotPresent else NextGroup)"

section \<open>Example containers\<close>

text \<open>
  Concrete containers over \<open>nat\<close> keys and values, hashed by \<open>ex_hasher\<close> (the identity, as
  \<open>std::hash\<close> is on integers in common standard libraries) with salt 0.
  \<^item> \<open>ex_new2\<close>: capacity 2, \<open>\<delta> = 1/2\<close>; \<open>ex_full2\<close> is \<open>ex_new2\<close> after \<open>insert(7, 1)\<close>, at its
    cap of one entry; \<open>ex_gap2\<close> is a state no sequence of operations produces: key 0 sits
    behind an empty slot of its own first group.
  \<^item> \<open>ex_new3\<close>: capacity 3, \<open>\<delta> = 1/2\<close>; \<open>ex_one3\<close> and \<open>ex_two3\<close> after inserting keys 0 and 1.
  \<^item> \<open>ex_new10\<close>, \<open>ex_new100\<close>, \<open>ex_new40\<close>: fresh containers of capacity 10, 100 and 40 with
    \<open>\<delta> = 1/2\<close>, \<open>3/4096\<close> and \<open>1/32\<close>; \<open>ex_row40\<close> is \<open>ex_new40\<close> after inserting the 16 keys
    \<open>0, 40, ..., 600\<close>, which fill the first group of every multiple of 40.
  \<^item> \<open>ex_new18\<close>: capacity 18, \<open>\<delta> = 1/16\<close>; \<open>ex_jam18\<close> is \<open>ex_new18\<close> after inserting the 16
    keys \<open>0, 18, 36, ..., 270\<close>, which all start probing at slot 0.

  Every \<open>\<delta>\<close> used here is a binary fraction and every capacity is small, so the products
  \<open>\<delta> * C\<close> are exact in \<open>double\<close> arithmetic as well, and the values \<open>4 * log2 (1/\<delta>)\<close> are
  either integers or far from any integer.
\<close>

definition ex_hasher :: "nat \<Rightarrow> u64" where
  "ex_hasher k = word_of_nat k"

definition ex_entry :: "(nat, nat) Entry" where
  "ex_entry = \<lparr>key = 0, val = 0\<rparr>"

definition ex_new2 :: "(nat, nat) GroupedSIMDElastic" where
  "ex_new2 = \<lparr> metadata = [EMPTY, EMPTY], table = [ex_entry, ex_entry], capacity = 2,
               size_n = 0, max_inserts = 1, delta = 1 / 2, max_probe_limit = 2,
               max_group_used = 0, salt = 0, hasher = ex_hasher \<rparr>"

definition ex_full2 :: "(nat, nat) GroupedSIMDElastic" where
  "ex_full2 = ex_new2\<lparr> metadata := [EMPTY, 0x80], table := [ex_entry, \<lparr>key = 7, val = 1\<rparr>],
                        size_n := 1 \<rparr>"

definition ex_gap2 :: "(nat, nat) GroupedSIMDElastic" where
  "ex_gap2 = ex_new2\<lparr> metadata := [EMPTY, 0x80], table := [ex_entry, \<lparr>key = 0, val = 5\<rparr>],
                       size_n := 1 \<rparr>"

definition ex_new3 :: "(nat, nat) GroupedSIMDElastic" where
  "ex_new3 = \<lparr> metadata = [EMPTY, EMPTY, EMPTY], table = [ex_entry, ex_entry, ex_entry],
               capacity = 3, size_n = 0, max_inserts = 2, delta = 1 / 2, max_probe_limit = 3,
               max_group_used = 0, salt = 0, hasher = ex_hasher \<rparr>"

definition ex_one3 :: "(nat, nat) GroupedSIMDElastic" where
  "ex_one3 = ex_new3\<lparr> metadata := [0x80, EMPTY, EMPTY],
                       table := [\<lparr>key = 0, val = 10\<rparr>, ex_entry, ex_entry], size_n := 1 \<rparr>"




definition ex_new40 :: "(nat, nat) GroupedSIMDElastic" where
  "ex_new40 = \<lparr> metadata = replicate 40 EMPTY, table = replicate 40 ex_entry,
                capacity = 40, size_n = 0, max_inserts = 39, delta = 1 / 32, max_probe_limit = 20,
                max_group_used = 0, salt = 0, hasher = ex_hasher \<rparr>"

text \<open>A sequence of insertions, results discarded.\<close>

definition insert_all ::
  "('k, 'v) GroupedSIMDElastic \<Rightarrow> ('k \<times> 'v) list \<Rightarrow> ('k, 'v) GroupedSIMDElastic" where
  "insert_all s kvs = foldl (\<lambda>s (k, v). snd (insert_kv s k v)) s kvs"

definition ex_keys40 :: "(nat \<times> nat) list" where
  "ex_keys40 = [(0, 0), (40, 1), (80, 2), (120, 3), (160, 4), (200, 5), (240, 6), (280, 7),
                (320, 8), (360, 9), (400, 10), (440, 11), (480, 12), (520, 13), (560, 14), (600, 15)]"

definition ex_row40 :: "(nat, nat) GroupedSIMDElastic" where
  "ex_row40 = insert_all ex_new40 ex_keys40"

definition ex_new18 :: "(nat, nat) GroupedSIMDElastic" where
  "ex_new18 = \<lparr> metadata = [EMPTY, EMPTY, EMPTY, EMPTY, EMPTY, EMPTY, EMPTY, EMPTY, EMPTY,
                            EMPTY, EMPTY, EMPTY, EMPTY, EMPTY, EMPTY, EMPTY, EMPTY, EMPTY],
                table = [ex_entry, ex_entry, ex_entry, ex_entry, ex_entry, ex_entry,
                         ex_entry, ex_entry, ex_entry, ex_entry, ex_entry, ex_entry,
                         ex_entry, ex_entry, ex_entry, ex_entry, ex_entry, ex_entry],
                capacity = 18, size_n = 0, max_inserts = 17, delta = 1 / 16, max_probe_limit = 16,
                max_group_used = 0, salt = 0, hasher = ex_hasher \<rparr>"

definition ex_keys18 :: "(nat \<times> nat) list" where
  "ex_keys18 = [(0, 0), (18, 1), (36, 2), (54, 3), (72, 4), (90, 5), (108, 6), (126, 7),
                (144, 8), (162, 9), (180, 10), (198, 11), (216, 12), (234, 13), (252, 14), (270, 15)]"

definition ex_jam18 :: "(nat, nat) GroupedSIMDElastic" where
  "ex_jam18 = ex_new18\<lparr>
     metadata := [0x80, 0x80, 0x80, 0x80, 0x80, 0x80, 0x80, 0x80, 0x80,
                  0x80, 0x80, 0x80, 0x80, 0x80, 0x80, 0x80, EMPTY, EMPTY],
     table := [\<lparr>key = 0, val = 0\<rparr>, \<lparr>key = 18, val = 1\<rparr>, \<lparr>key = 36, val = 2\<rparr>,
               \<lparr>key = 54, val = 3\<rparr>, \<lparr>key = 72, val = 4\<rparr>, \<lparr>key = 90, val = 5\<rparr>,
               \<lparr>key = 108, val = 6\<rparr>, \<lparr>key = 126, val = 7\<rparr>, \<lparr>key = 144, val = 8\<rparr>,
               \<lparr>key = 162, val = 9\<rparr>, \<lparr>key = 180, val = 10\<rparr>, \<lparr>key = 198, val = 11\<rparr>,
               \<lparr>key = 216, val = 12\<rparr>, \<lparr>key = 234, val = 13\<rparr>, \<lparr>key = 252, val = 14\<rparr>,
               \<lparr>key = 270, val = 15\<rparr>, ex_entry, ex_entry],
     size_n := 16 \<rparr>"


section \<open>Loops as searches\<close>

text \<open>
  Each loop of the source stops at the first position with some property, so it is a
  \<open>List.find\<close> over its range; on a contiguous group the SIMD masks see the same slots as
  the probe schedule.
\<close>

lemma make_metadata_not_EMPTY: "make_metadata h \<noteq> EMPTY"
  by (simp add: make_metadata_def EMPTY_def OCCUPIED_BIT_def or_eq_0_iff)

lemma find_upt_Some:
  "List.find P [m..<n] = Some i \<longleftrightarrow> m \<le> i \<and> i < n \<and> P i \<and> (\<forall>j. m \<le> j \<and> j < i \<longrightarrow> \<not> P j)"
proof
  assume "List.find P [m..<n] = Some i"
  then obtain a where a: "a < length [m..<n]" "P ([m..<n] ! a)" "i = [m..<n] ! a"
    "\<forall>j<a. \<not> P ([m..<n] ! j)"
    unfolding find_Some_iff by blast
  then have ia: "i = m + a" "a < n - m" by simp_all
  have "\<not> P j" if "m \<le> j" "j < i" for j
  proof -
    from that ia have "j - m < a" by arith
    with a(4) have "\<not> P ([m..<n] ! (j - m))" by blast
    moreover from that ia have "[m..<n] ! (j - m) = j" by simp
    ultimately show ?thesis by simp
  qed
  with a ia show "m \<le> i \<and> i < n \<and> P i \<and> (\<forall>j. m \<le> j \<and> j < i \<longrightarrow> \<not> P j)" by auto
next
  assume r: "m \<le> i \<and> i < n \<and> P i \<and> (\<forall>j. m \<le> j \<and> j < i \<longrightarrow> \<not> P j)"
  then have "i - m < length [m..<n]" "P ([m..<n] ! (i - m))" "i = [m..<n] ! (i - m)"
    by auto
  moreover from r have "\<forall>j<i - m. \<not> P ([m..<n] ! j)" by auto
  ultimately show "List.find P [m..<n] = Some i"
    unfolding find_Some_iff by blast
qed

lemma find_upt_None:
  "List.find P [m..<n] = None \<longleftrightarrow> (\<forall>i. m \<le> i \<and> i < n \<longrightarrow> \<not> P i)"
  by (auto simp: find_None_iff)

lemma match_loop_filter:
  "match_loop tab k base (filter Q xs) =
     map_option (\<lambda>b. base + b) (List.find (\<lambda>b. Q b \<and> key (tab ! (base + b)) = k) xs)"
  by (induction xs) (auto simp: Let_def)

lemma case_filter_find:
  "(case filter P xs of [] \<Rightarrow> a | b # _ \<Rightarrow> f b) = (case List.find P xs of None \<Rightarrow> a | Some b \<Rightarrow> f b)"
  by (induction xs) auto

lemma scalar_place_find:
  "scalar_place s k v meta base g xs =
     (case List.find (\<lambda>i. free_at s (slot_in_group (capacity s) base i) \<or>
                          hit_at s k meta (slot_in_group (capacity s) base i)) xs of
        None \<Rightarrow> None
      | Some i \<Rightarrow>
          if free_at s (slot_in_group (capacity s) base i)
          then Some (store_new s (slot_in_group (capacity s) base i) meta k v g)
          else Some (overwrite s (slot_in_group (capacity s) base i) v))"
  by (induction xs) (auto simp: Let_def hit_at_def free_at_def)

lemma find_scalar_find:
  "find_scalar s k meta base xs =
     (case List.find (\<lambda>i. free_at s (slot_in_group (capacity s) base i) \<or>
                          hit_at s k meta (slot_in_group (capacity s) base i)) xs of
        None \<Rightarrow> NextGroup
      | Some i \<Rightarrow>
          if free_at s (slot_in_group (capacity s) base i) then NotPresent
          else Found (slot_in_group (capacity s) base i))"
  by (induction xs) (auto simp: Let_def hit_at_def free_at_def)

lemma probe_contiguous:
  "group_base cap h g + GROUP_SIZE \<le> cap \<Longrightarrow> i < GROUP_SIZE \<Longrightarrow> probe cap h g i = group_base cap h g + i"
  by (simp add: probe_def slot_in_group_def)

lemma simd_empty_view:
  assumes "group_base (capacity s) h g + 16 \<le> capacity s"
  shows "movemask_eq (metadata s) (group_base (capacity s) h g) EMPTY
           = filter (\<lambda>i. free_at s (probe (capacity s) h g i)) [0..<16]"
  unfolding movemask_eq_def GROUP_SIZE_def
  by (rule filter_cong)
     (use assms in \<open>auto simp: free_at_def probe_contiguous GROUP_SIZE_def\<close>)

lemma simd_match_view:
  assumes "group_base (capacity s) h g + 16 \<le> capacity s"
  shows "match_loop (table s) k (group_base (capacity s) h g)
           (movemask_eq (metadata s) (group_base (capacity s) h g) meta)
         = map_option (probe (capacity s) h g)
             (List.find (\<lambda>i. hit_at s k meta (probe (capacity s) h g i)) [0..<16])"
proof -
  have pc: "\<And>i. i < 16 \<Longrightarrow> probe (capacity s) h g i = group_base (capacity s) h g + i"
    using assms probe_contiguous[of "capacity s" h g] by (simp add: GROUP_SIZE_def)
  have f1: "List.find (\<lambda>b. metadata s ! (group_base (capacity s) h g + b) = meta \<and>
                key (table s ! (group_base (capacity s) h g + b)) = k) [0..<16]
          = List.find (\<lambda>i. hit_at s k meta (probe (capacity s) h g i)) [0..<16]"
    by (rule find_cong) (auto simp: pc hit_at_def)
  show ?thesis
    unfolding movemask_eq_def GROUP_SIZE_def match_loop_filter f1
    by (rule map_option_cong) (auto simp: find_upt_Some pc)
qed

section \<open>What one insertion does\<close>

text \<open>
  Below the size cap, \<open>insert\<close> either overwrites the value at a slot that holds the key,
  or stores the key at the first empty probe position, every earlier position being
  occupied by other keys, or fails with every position of the first \<open>max_groups\<close> groups
  occupied by other keys.
\<close>

lemma insert_group0_view:
  "insert_group0 s k v h meta =
     (if group_base (capacity s) h 0 + 16 \<le> capacity s then
        (case List.find (\<lambda>i. hit_at s k meta (probe (capacity s) h 0 i)) [0..<16] of
           Some i \<Rightarrow> Some (overwrite s (probe (capacity s) h 0 i) v)
         | None \<Rightarrow>
            (case List.find (\<lambda>i. free_at s (probe (capacity s) h 0 i)) [0..<16] of
               Some i \<Rightarrow> Some (store_new s (probe (capacity s) h 0 i) meta k v 0)
             | None \<Rightarrow> None))
      else
        (case List.find (\<lambda>i. free_at s (probe (capacity s) h 0 i) \<or>
                             hit_at s k meta (probe (capacity s) h 0 i)) [0..<16] of
           None \<Rightarrow> None
         | Some i \<Rightarrow>
             if free_at s (probe (capacity s) h 0 i)
             then Some (store_new s (probe (capacity s) h 0 i) meta k v 0)
             else Some (overwrite s (probe (capacity s) h 0 i) v)))"
proof (cases "group_base (capacity s) h 0 + 16 \<le> capacity s")
  case True
  have pc: "\<And>i. i < 16 \<Longrightarrow> probe (capacity s) h 0 i = group_base (capacity s) h 0 + i"
    using True probe_contiguous[of "capacity s" h 0] by (simp add: GROUP_SIZE_def)
  have B: "(case movemask_eq (metadata s) (group_base (capacity s) h 0) EMPTY of
              [] \<Rightarrow> None
            | bit_idx # _ \<Rightarrow> Some (store_new s (group_base (capacity s) h 0 + bit_idx) meta k v 0))
         = (case List.find (\<lambda>i. free_at s (probe (capacity s) h 0 i)) [0..<16] of
              None \<Rightarrow> None
            | Some i \<Rightarrow> Some (store_new s (probe (capacity s) h 0 i) meta k v 0))"
  proof (cases "List.find (\<lambda>i. free_at s (probe (capacity s) h 0 i)) [0..<16]")
    case None
    then show ?thesis
      unfolding simd_empty_view[OF True] case_filter_find by simp
  next
    case (Some i)
    then have "i < 16" by (simp add: find_upt_Some)
    with Some show ?thesis
      unfolding simd_empty_view[OF True] case_filter_find by (simp add: pc)
  qed
  show ?thesis
    using True
    by (simp add: insert_group0_def Let_def GROUP_SIZE_def simd_match_view B split: option.splits)
next
  case False
  then show ?thesis
    unfolding probe_def
    by (simp add: insert_group0_def Let_def scalar_place_find GROUP_SIZE_def)
qed

lemma insert_group0_cases:
  "(insert_group0 s k v h meta = None
      \<and> (\<forall>i<16. blocked s k meta (probe (capacity s) h 0 i)))
   \<or> (\<exists>i<16. free_at s (probe (capacity s) h 0 i)
         \<and> (\<forall>j<i. blocked s k meta (probe (capacity s) h 0 j))
         \<and> insert_group0 s k v h meta = Some (store_new s (probe (capacity s) h 0 i) meta k v 0))
   \<or> (\<exists>i<16. hit_at s k meta (probe (capacity s) h 0 i)
         \<and> insert_group0 s k v h meta = Some (overwrite s (probe (capacity s) h 0 i) v))"
  unfolding insert_group0_view blocked_def
  by (auto simp: find_upt_Some find_upt_None split: option.splits if_splits)

lemma scalar_place_cases:
  "(scalar_place s k v meta (group_base (capacity s) h g) g [0..<16] = None
      \<and> (\<forall>i<16. blocked s k meta (probe (capacity s) h g i)))
   \<or> (\<exists>i<16. free_at s (probe (capacity s) h g i)
         \<and> (\<forall>j<i. blocked s k meta (probe (capacity s) h g j))
         \<and> scalar_place s k v meta (group_base (capacity s) h g) g [0..<16]
             = Some (store_new s (probe (capacity s) h g i) meta k v g))
   \<or> (\<exists>i<16. hit_at s k meta (probe (capacity s) h g i)
         \<and> scalar_place s k v meta (group_base (capacity s) h g) g [0..<16]
             = Some (overwrite s (probe (capacity s) h g i) v))"
  unfolding scalar_place_find blocked_def probe_def
  by (auto simp: find_upt_Some find_upt_None split: option.splits if_splits)

lemma fallback_scan_find:
  "fallback_scan s k v h meta gs =
     (case List.find (\<lambda>g. scalar_place s k v meta (group_base (capacity s) h g) g [0..<16] \<noteq> None) gs of
        None \<Rightarrow> (False, s)
      | Some g \<Rightarrow> (True, the (scalar_place s k v meta (group_base (capacity s) h g) g [0..<16])))"
  by (induction gs) (auto simp: GROUP_SIZE_def split: option.splits)

lemma fallback_scan_cases:
  "(fallback_scan s k v h meta [a..<b] = (False, s)
      \<and> (\<forall>g. a \<le> g \<and> g < b \<longrightarrow> (\<forall>i<16. blocked s k meta (probe (capacity s) h g i))))
   \<or> (\<exists>g i. a \<le> g \<and> g < b \<and> i < 16 \<and> free_at s (probe (capacity s) h g i)
         \<and> (\<forall>j<i. blocked s k meta (probe (capacity s) h g j))
         \<and> (\<forall>g'. a \<le> g' \<and> g' < g \<longrightarrow> (\<forall>i<16. blocked s k meta (probe (capacity s) h g' i)))
         \<and> fallback_scan s k v h meta [a..<b] = (True, store_new s (probe (capacity s) h g i) meta k v g))
   \<or> (\<exists>g i. a \<le> g \<and> g < b \<and> i < 16 \<and> hit_at s k meta (probe (capacity s) h g i)
         \<and> fallback_scan s k v h meta [a..<b] = (True, overwrite s (probe (capacity s) h g i) v))"
proof (cases "List.find (\<lambda>g. scalar_place s k v meta (group_base (capacity s) h g) g [0..<16] \<noteq> None) [a..<b]")
  case None
  then have "\<forall>g. a \<le> g \<and> g < b \<longrightarrow> scalar_place s k v meta (group_base (capacity s) h g) g [0..<16] = None"
    by (simp add: find_upt_None)
  then have "\<forall>g. a \<le> g \<and> g < b \<longrightarrow> (\<forall>i<16. blocked s k meta (probe (capacity s) h g i))"
    using scalar_place_cases[of s k v meta h] by (metis option.distinct(1))
  with None show ?thesis by (simp add: fallback_scan_find)
next
  case (Some g)
  then have g: "a \<le> g" "g < b"
    "scalar_place s k v meta (group_base (capacity s) h g) g [0..<16] \<noteq> None"
    "\<forall>g'. a \<le> g' \<and> g' < g \<longrightarrow> scalar_place s k v meta (group_base (capacity s) h g') g' [0..<16] = None"
    by (simp_all add: find_upt_Some)
  from g(4) have before: "\<forall>g'. a \<le> g' \<and> g' < g \<longrightarrow> (\<forall>i<16. blocked s k meta (probe (capacity s) h g' i))"
    using scalar_place_cases[of s k v meta h] by (metis option.distinct(1))
  have fb: "fallback_scan s k v h meta [a..<b]
        = (True, the (scalar_place s k v meta (group_base (capacity s) h g) g [0..<16]))"
    using Some by (simp add: fallback_scan_find)
  from scalar_place_cases[of s k v meta h g] g(3)
  consider i where "i < 16" "free_at s (probe (capacity s) h g i)"
      "\<forall>j<i. blocked s k meta (probe (capacity s) h g j)"
      "scalar_place s k v meta (group_base (capacity s) h g) g [0..<16]
             = Some (store_new s (probe (capacity s) h g i) meta k v g)"
    | i where "i < 16" "hit_at s k meta (probe (capacity s) h g i)"
      "scalar_place s k v meta (group_base (capacity s) h g) g [0..<16]
             = Some (overwrite s (probe (capacity s) h g i) v)"
    by blast
  then show ?thesis
  proof cases
    case 1
    with g(1,2) before fb show ?thesis by auto
  next
    case 2
    with g(1,2) fb show ?thesis by auto
  qed
qed

lemma collect_scalar_spec:
  assumes "collect_scalar s k meta base g xs cands = (r, cands')"
  shows "(case r of
            Some idx \<Rightarrow> \<exists>i\<in>set xs. idx = slot_in_group (capacity s) base i \<and> hit_at s k meta idx
          | None \<Rightarrow>
              (\<forall>i\<in>set xs. free_at s (slot_in_group (capacity s) base i)
                            \<or> blocked s k meta (slot_in_group (capacity s) base i))
              \<and> cands' = cands @ map (\<lambda>i. \<lparr>group_idx = g, slot_offset = i,
                                            table_idx = slot_in_group (capacity s) base i\<rparr>)
                                    (filter (\<lambda>i. free_at s (slot_in_group (capacity s) base i)) xs))
         \<and> length cands' \<le> length cands + length xs"
  using assms
proof (induction xs arbitrary: cands)
  case Nil
  then show ?case by auto
next
  case (Cons i xs)
  show ?case
  proof (cases "free_at s (slot_in_group (capacity s) base i)")
    case True
    with Cons.prems have "collect_scalar s k meta base g xs
        (cands @ [\<lparr>group_idx = g, slot_offset = i, table_idx = slot_in_group (capacity s) base i\<rparr>]) = (r, cands')"
      by (simp add: Let_def free_at_def)
    from Cons.IH[OF this] True show ?thesis
      by (auto split: option.splits)
  next
    case False
    show ?thesis
    proof (cases "hit_at s k meta (slot_in_group (capacity s) base i)")
      case True
      with False Cons.prems show ?thesis
        by (auto simp: Let_def free_at_def hit_at_def)
    next
      case nh: False
      with False Cons.prems have "collect_scalar s k meta base g xs cands = (r, cands')"
        by (auto simp: Let_def free_at_def hit_at_def)
      from Cons.IH[OF this] False nh show ?thesis
        by (auto split: option.splits simp: blocked_def)
    qed
  qed
qed

lemma collect_group_spec:
  assumes "collect_group s k h meta g cands = (r, cands')"
  shows "(case r of
            Some idx \<Rightarrow> \<exists>i<16. idx = probe (capacity s) h g i \<and> hit_at s k meta idx
          | None \<Rightarrow>
              (\<forall>i<16. free_at s (probe (capacity s) h g i) \<or> blocked s k meta (probe (capacity s) h g i))
              \<and> cands' = cands @ map (mk_candidate (capacity s) h g)
                                    (filter (\<lambda>i. free_at s (probe (capacity s) h g i)) [0..<16]))
         \<and> length cands' \<le> length cands + 16"
proof (cases "group_base (capacity s) h g + 16 \<le> capacity s")
  case True
  have pc: "\<And>i. i < 16 \<Longrightarrow> probe (capacity s) h g i = group_base (capacity s) h g + i"
    using True probe_contiguous[of "capacity s" h g] by (simp add: GROUP_SIZE_def)
  have mapeq: "map (\<lambda>bit_idx. \<lparr>group_idx = g, slot_offset = bit_idx,
                      table_idx = group_base (capacity s) h g + bit_idx\<rparr>)
                 (filter (\<lambda>i. free_at s (probe (capacity s) h g i)) [0..<16])
             = map (mk_candidate (capacity s) h g)
                 (filter (\<lambda>i. free_at s (probe (capacity s) h g i)) [0..<16])"
    by (rule map_cong) (auto simp: mk_candidate_def pc)
  have len: "length (filter (\<lambda>i. free_at s (probe (capacity s) h g i)) [0..<16]) \<le> 16"
    using length_filter_le[of _ "[0..<16]"] by (metis diff_zero length_upt)
  show ?thesis
  proof (cases "List.find (\<lambda>i. hit_at s k meta (probe (capacity s) h g i)) [0..<16]")
    case None
    with assms True have "r = None"
      "cands' = cands @ map (mk_candidate (capacity s) h g)
                          (filter (\<lambda>i. free_at s (probe (capacity s) h g i)) [0..<16])"
      by (auto simp: collect_group_def Let_def GROUP_SIZE_def simd_match_view simd_empty_view mapeq)
    moreover from None have "\<forall>i<16. \<not> hit_at s k meta (probe (capacity s) h g i)"
      by (simp add: find_upt_None)
    ultimately show ?thesis using len by (auto simp: blocked_def)
  next
    case (Some i)
    then have "i < 16" "hit_at s k meta (probe (capacity s) h g i)"
      by (simp_all add: find_upt_Some)
    moreover from assms True Some have "r = Some (probe (capacity s) h g i)" "cands' = cands"
      by (auto simp: collect_group_def Let_def GROUP_SIZE_def simd_match_view)
    ultimately show ?thesis by auto
  qed
next
  case False
  with assms have "collect_scalar s k meta (group_base (capacity s) h g) g [0..<16] cands = (r, cands')"
    by (simp add: collect_group_def Let_def GROUP_SIZE_def)
  from collect_scalar_spec[OF this] show ?thesis
    by (auto split: option.splits simp: probe_def mk_candidate_def)
qed

lemma collect_candidates_length:
  "collect_candidates cap s k h meta gs cands = (r, cands')
     \<Longrightarrow> length cands' \<le> length cands + 16 * length gs"
proof (induction gs arbitrary: cands)
  case Nil
  then show ?case by simp
next
  case (Cons g gs)
  show ?case
  proof (cases "length cands < cap")
    case False
    with Cons.prems show ?thesis by simp
  next
    case True
    obtain r1 c1 where g1: "collect_group s k h meta g cands = (r1, c1)"
      by (cases "collect_group s k h meta g cands")
    from collect_group_spec[OF g1] have l1: "length c1 \<le> length cands + 16" by simp
    show ?thesis
    proof (cases r1)
      case None
      with Cons.prems True g1 have "collect_candidates cap s k h meta gs c1 = (r, cands')"
        by simp
      from Cons.IH[OF this] l1 show ?thesis by simp
    next
      case (Some idx)
      with Cons.prems True g1 have "cands' = c1" by simp
      with l1 show ?thesis by simp
    qed
  qed
qed

lemma collect_candidates_spec:
  assumes "collect_candidates cap s k h meta gs cands = (r, cands')"
    and "length cands + 16 * length gs \<le> cap"
  shows "(case r of
            Some idx \<Rightarrow> \<exists>g\<in>set gs. \<exists>i<16. idx = probe (capacity s) h g i \<and> hit_at s k meta idx
          | None \<Rightarrow>
              (\<forall>g\<in>set gs. \<forall>i<16. free_at s (probe (capacity s) h g i)
                                  \<or> blocked s k meta (probe (capacity s) h g i))
              \<and> set cands' = set cands \<union> window_free s h gs)"
  using assms
proof (induction gs arbitrary: cands)
  case Nil
  then show ?case by (auto simp: window_free_def)
next
  case (Cons g gs)
  from Cons.prems(2) have lt: "length cands < cap" by simp
  obtain r1 c1 where g1: "collect_group s k h meta g cands = (r1, c1)"
    by (cases "collect_group s k h meta g cands")
  note sp = collect_group_spec[OF g1]
  show ?case
  proof (cases r1)
    case (Some idx)
    with Cons.prems(1) lt g1 have "r = Some idx" by simp
    with sp Some show ?thesis by auto
  next
    case None
    with Cons.prems(1) lt g1 have rest: "collect_candidates cap s k h meta gs c1 = (r, cands')"
      by simp
    from sp Cons.prems(2) have "length c1 + 16 * length gs \<le> cap" by simp
    note ih = Cons.IH[OF rest this]
    from sp None have c1: "set c1 = set cands \<union> window_free s h [g]"
      and b1: "\<forall>i<16. free_at s (probe (capacity s) h g i) \<or> blocked s k meta (probe (capacity s) h g i)"
      by (auto simp: window_free_def)
    have wf: "window_free s h (g # gs) = window_free s h [g] \<union> window_free s h gs"
      by (auto simp: window_free_def)
    show ?thesis
    proof (cases r)
      case (Some idx)
      with ih show ?thesis by auto
    next
      case None
      with ih c1 b1 wf show ?thesis by auto
    qed
  qed
qed

lemma collect_candidates_cap_irrelevant:
  assumes "length cands + 16 * length gs \<le> cap" "length cands + 16 * length gs \<le> cap'"
  shows "collect_candidates cap s k h meta gs cands = collect_candidates cap' s k h meta gs cands"
  using assms
proof (induction gs arbitrary: cands)
  case Nil
  then show ?case by simp
next
  case (Cons g gs)
  then have lt: "length cands < cap" "length cands < cap'" by simp_all
  obtain r1 c1 where g1: "collect_group s k h meta g cands = (r1, c1)"
    by (cases "collect_group s k h meta g cands")
  from collect_group_spec[OF g1] have "length c1 \<le> length cands + 16" by simp
  with Cons.prems have "length c1 + 16 * length gs \<le> cap" "length c1 + 16 * length gs \<le> cap'"
    by simp_all
  from Cons.IH[OF this] lt g1 show ?case by (simp split: option.splits)
qed

lemma best_candidate_min:
  "best_candidate b cs \<in> set (b # cs) \<and> (\<forall>c\<in>set (b # cs). \<not> lex_less c (best_candidate b cs))"
proof (induction cs arbitrary: b)
  case Nil
  then show ?case by (simp add: lex_less_def)
next
  case (Cons c cs)
  show ?case
  proof (cases "lex_less c b")
    case True
    then have e: "best_candidate b (c # cs) = best_candidate c cs" by (simp add: lex_less_def)
    from Cons.IH[of c] have m: "best_candidate c cs \<in> set (c # cs)"
      "\<forall>x\<in>set (c # cs). \<not> lex_less x (best_candidate c cs)" by auto
    from m(2) have "\<not> lex_less c (best_candidate c cs)" by simp
    with True have "\<not> lex_less b (best_candidate c cs)"
      by (auto simp: lex_less_def)
    with m e show ?thesis by auto
  next
    case False
    then have e: "best_candidate b (c # cs) = best_candidate b cs" by (auto simp: lex_less_def)
    from Cons.IH[of b] have m: "best_candidate b cs \<in> set (b # cs)"
      "\<forall>x\<in>set (b # cs). \<not> lex_less x (best_candidate b cs)" by auto
    from m(2) have "\<not> lex_less b (best_candidate b cs)" by simp
    with False have "\<not> lex_less c (best_candidate b cs)"
      by (auto simp: lex_less_def)
    with m e show ?thesis by auto
  qed
qed

lemma max_groups_to_check_le: "max_groups_to_check s \<le> max_groups s" "max_groups_to_check s \<le> 8"
  by (auto simp: max_groups_to_check_def Let_def)

lemma max_groups_to_check_pos: "0 < max_groups s \<Longrightarrow> 0 < max_groups_to_check s"
  by (auto simp: max_groups_to_check_def Let_def)

lemma candidate_phase_spec:
  assumes "candidate_phase s k = (r, cands)"
  shows "case r of
            Some idx \<Rightarrow> \<exists>g i. 1 \<le> g \<and> g < max_groups_to_check s \<and> i < 16
                          \<and> idx = probe (capacity s) (hash_with_salt s k) g i
                          \<and> hit_at s k (make_metadata (hash_with_salt s k)) idx
          | None \<Rightarrow>
              (\<forall>g i. 1 \<le> g \<and> g < max_groups_to_check s \<and> i < 16 \<longrightarrow>
                   free_at s (probe (capacity s) (hash_with_salt s k) g i)
                   \<or> blocked s k (make_metadata (hash_with_salt s k)) (probe (capacity s) (hash_with_salt s k) g i))
              \<and> set cands = window_free s (hash_with_salt s k) [1..<max_groups_to_check s]"
proof -
  from assms have c: "collect_candidates 128 s k (hash_with_salt s k) (make_metadata (hash_with_salt s k))
           [1..<max_groups_to_check s] [] = (r, cands)"
    by (simp add: candidate_phase_def Let_def EARLY_EXIT_GROUPS_def)
  have "length ([]::Candidate list) + 16 * length [1..<max_groups_to_check s] \<le> 128"
    using max_groups_to_check_le(2)[of s] by simp
  from collect_candidates_spec[OF c this] show ?thesis
    by (cases r) auto
qed

lemma insert_kv_cases:
  assumes lt: "size_n s < max_inserts s" and T: "0 < max_groups s"
    and h: "h = hash_with_salt s k" and meta: "meta = make_metadata h" and C: "C = capacity s"
  shows "(\<exists>g i. g < max_groups s \<and> i < 16 \<and> hit_at s k meta (probe C h g i)
            \<and> insert_kv s k v = (True, overwrite s (probe C h g i) v))
       \<or> (\<exists>g i. g < max_groups s \<and> i < 16 \<and> free_at s (probe C h g i)
            \<and> all_before (blocked s k meta) C h g i
            \<and> insert_kv s k v = (True, store_new s (probe C h g i) meta k v g))
       \<or> ((\<forall>g<max_groups s. \<forall>i<16. blocked s k meta (probe C h g i))
            \<and> insert_kv s k v = (False, s))"
    (is "?U \<or> ?P \<or> ?F")
proof -
  let ?W = "max_groups_to_check s"
  have W: "?W \<le> max_groups s" "0 < ?W"
    using max_groups_to_check_le(1)[of s] max_groups_to_check_pos[OF T] by auto
  have ins: "insert_kv s k v =
      (case insert_group0 s k v h meta of
         Some s' \<Rightarrow> (True, s')
       | None \<Rightarrow>
          (case candidate_phase s k of
             (Some idx, cands) \<Rightarrow> (True, overwrite s idx v)
           | (None, c # cs) \<Rightarrow>
               (let best = best_candidate c cs
                in (True, store_new s (table_idx best) meta k v (group_idx best)))
           | (None, []) \<Rightarrow> fallback_scan s k v h meta [?W..<max_groups s]))"
    using lt unfolding meta h insert_kv_def Let_def by simp
  from insert_group0_cases[of s k v h meta]
  consider
    (full) "insert_group0 s k v h meta = None" "\<forall>i<16. blocked s k meta (probe C h 0 i)"
  | (place) i where "i < 16" "free_at s (probe C h 0 i)" "\<forall>j<i. blocked s k meta (probe C h 0 j)"
      "insert_group0 s k v h meta = Some (store_new s (probe C h 0 i) meta k v 0)"
  | (update) i where "i < 16" "hit_at s k meta (probe C h 0 i)"
      "insert_group0 s k v h meta = Some (overwrite s (probe C h 0 i) v)"
    unfolding C by auto
  then show ?thesis
  proof cases
    case update
    with ins T have ?U by (intro exI[of _ 0] exI[of _ i]) auto
    then show ?thesis ..
  next
    case place
    then have "all_before (blocked s k meta) C h 0 i" by (simp add: all_before_def)
    with place ins T have ?P by (intro exI[of _ 0] exI[of _ i]) auto
    then show ?thesis by blast
  next
    case full
    obtain r cands where cp: "candidate_phase s k = (r, cands)"
      by (cases "candidate_phase s k")
    note sp = candidate_phase_spec[OF cp, folded h, folded meta, folded C]
    show ?thesis
    proof (cases r)
      case (Some idx)
      with sp obtain g i where gi: "1 \<le> g" "g < ?W" "i < 16" "idx = probe C h g i"
        "hit_at s k meta idx" by auto
      from ins full(1) cp Some have "insert_kv s k v = (True, overwrite s idx v)" by simp
      with gi W have ?U by (intro exI[of _ g] exI[of _ i]) auto
      then show ?thesis ..
    next
      case None
      with sp have win: "\<forall>g i. 1 \<le> g \<and> g < ?W \<and> i < 16 \<longrightarrow>
           free_at s (probe C h g i) \<or> blocked s k meta (probe C h g i)"
        and cset: "set cands = window_free s h [1..<?W]" by auto
      show ?thesis
      proof (cases cands)
        case Nil
        with cset have nofree: "\<forall>g i. 1 \<le> g \<and> g < ?W \<and> i < 16 \<longrightarrow> \<not> free_at s (probe C h g i)"
          by (auto simp: window_free_def C)
        with win have winb: "\<forall>g i. 1 \<le> g \<and> g < ?W \<and> i < 16 \<longrightarrow> blocked s k meta (probe C h g i)"
          by blast
        have low: "blocked s k meta (probe C h g i)" if "g < ?W" "i < 16" for g i
          using that full(2) winb by (cases "g = 0") auto
        from ins full(1) cp None Nil
        have fb: "insert_kv s k v = fallback_scan s k v h meta [?W..<max_groups s]" by simp
        from fallback_scan_cases[of s k v h meta ?W "max_groups s", folded C]
        consider
          (ffail) "fallback_scan s k v h meta [?W..<max_groups s] = (False, s)"
            "\<forall>g. ?W \<le> g \<and> g < max_groups s \<longrightarrow> (\<forall>i<16. blocked s k meta (probe C h g i))"
        | (fplace) g i where "?W \<le> g" "g < max_groups s" "i < 16" "free_at s (probe C h g i)"
            "\<forall>j<i. blocked s k meta (probe C h g j)"
            "\<forall>g'. ?W \<le> g' \<and> g' < g \<longrightarrow> (\<forall>i<16. blocked s k meta (probe C h g' i))"
            "fallback_scan s k v h meta [?W..<max_groups s] = (True, store_new s (probe C h g i) meta k v g)"
        | (fupdate) g i where "?W \<le> g" "g < max_groups s" "i < 16" "hit_at s k meta (probe C h g i)"
            "fallback_scan s k v h meta [?W..<max_groups s] = (True, overwrite s (probe C h g i) v)"
          by blast
        then show ?thesis
        proof cases
          case ffail
          have "blocked s k meta (probe C h g i)" if "g < max_groups s" "i < 16" for g i
            using that low ffail(2) by (cases "g < ?W") auto
          with ffail(1) fb have ?F by simp
          then show ?thesis by blast
        next
          case fplace
          have "blocked s k meta (probe C h g' i')" if "g' < g" "i' < 16" for g' i'
            using that low fplace(6) by (cases "g' < ?W") auto
          with fplace(5) have "all_before (blocked s k meta) C h g i"
            by (simp add: all_before_def)
          with fplace fb have ?P by (intro exI[of _ g] exI[of _ i]) auto
          then show ?thesis by blast
        next
          case fupdate
          with fb have ?U by (intro exI[of _ g] exI[of _ i]) auto
          then show ?thesis ..
        qed
      next
        case (Cons c cs)
        define best where "best = best_candidate c cs"
        from best_candidate_min[of c cs] Cons
        have bin: "best \<in> set cands" and bmin: "\<forall>x\<in>set cands. \<not> lex_less x best"
          by (auto simp: best_def)
        from bin cset obtain g i where gi: "1 \<le> g" "g < ?W" "i < 16" "free_at s (probe C h g i)"
          "best = mk_candidate C h g i"
          by (auto simp: window_free_def C)
        have nofree: "\<not> free_at s (probe C h g' i')"
          if "1 \<le> g'" "g' < ?W" "i' < 16" "g' < g \<or> (g' = g \<and> i' < i)" for g' i'
        proof
          assume "free_at s (probe C h g' i')"
          with that cset have "mk_candidate C h g' i' \<in> set cands"
            by (auto simp: window_free_def C)
          with bmin have "\<not> lex_less (mk_candidate C h g' i') best" by blast
          with that(4) gi(5) show False by (auto simp: lex_less_def mk_candidate_def)
        qed
        have b1: "blocked s k meta (probe C h g' i')" if "g' < g" "i' < 16" for g' i'
        proof (cases "g' = 0")
          case True
          with full(2) that show ?thesis by simp
        next
          case False
          with that gi(2) have r: "1 \<le> g'" "g' < ?W" by auto
          from nofree[OF r that(2)] that(1) have "\<not> free_at s (probe C h g' i')" by simp
          moreover from win r that(2)
          have "free_at s (probe C h g' i') \<or> blocked s k meta (probe C h g' i')" by blast
          ultimately show ?thesis by blast
        qed
        have b2: "blocked s k meta (probe C h g i')" if "i' < i" for i'
        proof -
          from that gi(3) have i16: "i' < 16" by simp
          from nofree[OF gi(1,2) i16] that have "\<not> free_at s (probe C h g i')" by simp
          moreover from win gi(1,2) i16
          have "free_at s (probe C h g i') \<or> blocked s k meta (probe C h g i')" by blast
          ultimately show ?thesis by blast
        qed
        from b1 b2 have ab: "all_before (blocked s k meta) C h g i"
          by (simp add: all_before_def)
        from ins full(1) cp None Cons
        have "insert_kv s k v = (True, store_new s (table_idx best) meta k v (group_idx best))"
          by (simp add: best_def Let_def)
        with gi(5) have "insert_kv s k v = (True, store_new s (probe C h g i) meta k v g)"
          by (simp add: mk_candidate_def)
        with gi W ab have ?P by (intro exI[of _ g] exI[of _ i]) auto
        then show ?thesis by blast
      qed
    qed
  qed
qed

section \<open>The invariant is preserved\<close>

lemma probe_less: "0 < cap \<Longrightarrow> probe cap h g i < cap"
  by (simp add: probe_def slot_in_group_def)

lemma filter_update_count:
  "idx < length xs \<Longrightarrow> \<not> P (xs ! idx) \<Longrightarrow> P y
     \<Longrightarrow> length (filter P (xs[idx := y])) = Suc (length (filter P xs))"
  by (induction xs arbitrary: idx) (auto split: nat.splits)

lemma overwrite_fields [simp]:
  "metadata (overwrite s idx v) = metadata s"
  "capacity (overwrite s idx v) = capacity s"
  "size_n (overwrite s idx v) = size_n s"
  "max_inserts (overwrite s idx v) = max_inserts s"
  "delta (overwrite s idx v) = delta s"
  "max_probe_limit (overwrite s idx v) = max_probe_limit s"
  "max_group_used (overwrite s idx v) = max_group_used s"
  "salt (overwrite s idx v) = salt s"
  "hasher (overwrite s idx v) = hasher s"
  "length (table (overwrite s idx v)) = length (table s)"
  by (simp_all add: overwrite_def)

lemma overwrite_key [simp]: "key (table (overwrite s idx v) ! j) = key (table s ! j)"
  by (cases "idx < length (table s)") (auto simp: overwrite_def nth_list_update list_update_beyond)

lemma overwrite_derived [simp]:
  "free_at (overwrite s idx v) j = free_at s j"
  "hash_with_salt (overwrite s idx v) k = hash_with_salt s k"
  "max_groups (overwrite s idx v) = max_groups s"
  "stored_ok (overwrite s idx v) j = stored_ok s j"
  by (simp_all add: free_at_def hash_with_salt_def max_groups_def stored_ok_def all_before_def)

lemma table_inv_overwrite: "table_inv s \<Longrightarrow> table_inv (overwrite s idx v)"
  by (simp add: table_inv_def)

lemma store_new_fields [simp]:
  "metadata (store_new s idx meta k v g) = (metadata s)[idx := meta]"
  "table (store_new s idx meta k v g) = (table s)[idx := \<lparr>key = k, val = v\<rparr>]"
  "capacity (store_new s idx meta k v g) = capacity s"
  "size_n (store_new s idx meta k v g) = size_n s + 1"
  "max_inserts (store_new s idx meta k v g) = max_inserts s"
  "delta (store_new s idx meta k v g) = delta s"
  "max_probe_limit (store_new s idx meta k v g) = max_probe_limit s"
  "max_group_used (store_new s idx meta k v g) = max (max_group_used s) g"
  "salt (store_new s idx meta k v g) = salt s"
  "hasher (store_new s idx meta k v g) = hasher s"
  by (simp_all add: store_new_def max_def)

lemma store_new_derived [simp]:
  "hash_with_salt (store_new s idx meta k v g) k' = hash_with_salt s k'"
  "max_groups (store_new s idx meta k v g) = max_groups s"
  by (simp_all add: hash_with_salt_def max_groups_def)

lemma hit_not_free: "meta = make_metadata h \<Longrightarrow> hit_at s k meta idx \<Longrightarrow> \<not> free_at s idx"
  using make_metadata_not_EMPTY[of h] by (auto simp: hit_at_def free_at_def)

lemma absent_if_blocked_before:
  assumes inv: "table_inv s" and h: "h = hash_with_salt s k" and meta: "meta = make_metadata h"
    and free: "free_at s (probe (capacity s) h g i)" and i: "i < 16"
    and ab: "all_before (blocked s k meta) (capacity s) h g i"
    and j: "j < capacity s" "\<not> free_at s j"
  shows "key (table s ! j) \<noteq> k"
proof
  assume kj: "key (table s ! j) = k"
  from inv j have "stored_ok s j" by (simp add: table_inv_def)
  with kj h meta obtain g' i' where p: "metadata s ! j = meta" "i' < 16"
    "probe (capacity s) h g' i' = j" "all_before (\<lambda>j. \<not> free_at s j) (capacity s) h g' i'"
    by (auto simp: stored_ok_def Let_def)
  from p(1) kj have hit: "hit_at s k meta j" by (simp add: hit_at_def)
  consider "g' < g \<or> (g' = g \<and> i' < i)" | "g' = g \<and> i' = i" | "g < g' \<or> (g = g' \<and> i < i')"
    by linarith
  then show False
  proof cases
    case 1
    with ab p(2) have "blocked s k meta (probe (capacity s) h g' i')"
      by (auto simp: all_before_def)
    with p(3) hit show False by (simp add: blocked_def)
  next
    case 2
    with free p(3) j(2) show False by simp
  next
    case 3
    with p(4) i have "\<not> free_at s (probe (capacity s) h g i)"
      by (auto simp: all_before_def)
    with free show False by simp
  qed
qed

lemma table_inv_store_new:
  assumes inv: "table_inv s" and h: "h = hash_with_salt s k" and meta: "meta = make_metadata h"
    and g: "g < max_groups s" and i: "i < 16"
    and free: "free_at s (probe (capacity s) h g i)"
    and ab: "all_before (blocked s k meta) (capacity s) h g i"
    and lt: "size_n s < max_inserts s"
  shows "table_inv (store_new s (probe (capacity s) h g i) meta k v g)"
proof -
  let ?idx = "probe (capacity s) h g i"
  let ?s' = "store_new s ?idx meta k v g"
  from inv have cap: "0 < capacity s" and lm: "length (metadata s) = capacity s"
    and lt': "length (table s) = capacity s" by (simp_all add: table_inv_def)
  from cap have idx: "?idx < capacity s" by (rule probe_less)
  have ne: "meta \<noteq> EMPTY" unfolding meta by (rule make_metadata_not_EMPTY)
  have free': "free_at ?s' j \<longleftrightarrow> free_at s j \<and> j \<noteq> ?idx" for j
    using idx lm ne free by (auto simp: free_at_def nth_list_update)
  have key_other: "key (table ?s' ! j) = key (table s ! j)" if "j \<noteq> ?idx" for j
    using that by simp
  have key_new: "key (table ?s' ! ?idx) = k"
    using idx lt' by simp
  have md_other: "metadata ?s' ! j = metadata s ! j" if "j \<noteq> ?idx" for j
    using that by simp
  have md_new: "metadata ?s' ! ?idx = meta"
    using idx lm by simp
  have mono: "all_before (\<lambda>j. \<not> free_at ?s' j) (capacity s) h' g' i'"
    if "all_before (\<lambda>j. \<not> free_at s j) (capacity s) h' g' i'" for h' g' i'
    using that by (simp add: all_before_def free')
  have absent: "key (table s ! j) \<noteq> k" if "j < capacity s" "\<not> free_at s j" for j
    using absent_if_blocked_before[OF inv h meta free i ab that] .
  have ok: "stored_ok ?s' j" if j: "j < capacity s" "\<not> free_at ?s' j" for j
  proof (cases "j = ?idx")
    case True
    from ab have "all_before (\<lambda>j. \<not> free_at s j) (capacity s) h g i"
      by (simp add: all_before_def blocked_def)
    then have "all_before (\<lambda>j. \<not> free_at ?s' j) (capacity s) h g i" by (rule mono)
    with i have "\<exists>g' i'. g' \<le> max_group_used ?s' \<and> i' < 16 \<and> probe (capacity s) h g' i' = ?idx
          \<and> all_before (\<lambda>j. \<not> free_at ?s' j) (capacity s) h g' i'"
      by (intro exI[of _ g] exI[of _ i]) simp
    with True key_new md_new h meta show ?thesis
      unfolding stored_ok_def Let_def by simp
  next
    case False
    with j free' have nf: "\<not> free_at s j" by simp
    with inv j(1) have "stored_ok s j" by (simp add: table_inv_def)
    then obtain g' i' where p: "metadata s ! j = make_metadata (hash_with_salt s (key (table s ! j)))"
      "g' \<le> max_group_used s" "i' < 16"
      "probe (capacity s) (hash_with_salt s (key (table s ! j))) g' i' = j"
      "all_before (\<lambda>j. \<not> free_at s j) (capacity s) (hash_with_salt s (key (table s ! j))) g' i'"
      by (auto simp: stored_ok_def Let_def)
    let ?h = "hash_with_salt s (key (table s ! j))"
    from mono[OF p(5)] p(2-4)
    have "\<exists>g' i'. g' \<le> max_group_used ?s' \<and> i' < 16 \<and> probe (capacity s) ?h g' i' = j
          \<and> all_before (\<lambda>j. \<not> free_at ?s' j) (capacity s) ?h g' i'"
      by (intro exI[of _ g'] exI[of _ i']) simp
    with p(1) False show ?thesis
      unfolding stored_ok_def Let_def by (simp add: key_other md_other)
  qed
  have dist: "a = b" if "a < capacity s" "b < capacity s" "\<not> free_at ?s' a" "\<not> free_at ?s' b"
    "key (table ?s' ! a) = key (table ?s' ! b)" for a b
  proof (cases "a = ?idx"; cases "b = ?idx")
    assume "a = ?idx" "b = ?idx"
    then show ?thesis by simp
  next
    assume ab': "a = ?idx" "b \<noteq> ?idx"
    with that free' have "\<not> free_at s b" by simp
    from absent[OF that(2) this] ab' that(5) key_new key_other[of b] show ?thesis by simp
  next
    assume ab': "a \<noteq> ?idx" "b = ?idx"
    with that free' have "\<not> free_at s a" by simp
    from absent[OF that(1) this] ab' that(5) key_new key_other[of a] show ?thesis by simp
  next
    assume ab': "a \<noteq> ?idx" "b \<noteq> ?idx"
    with that free' have "\<not> free_at s a" "\<not> free_at s b" by simp_all
    moreover from ab' that(5) have "key (table s ! a) = key (table s ! b)"
      by (simp add: key_other)
    ultimately show ?thesis using inv that(1,2) by (simp add: table_inv_def)
  qed
  have cnt: "size_n ?s' = length (filter (\<lambda>m. m \<noteq> EMPTY) (metadata ?s'))"
  proof -
    from free have "\<not> (metadata s ! ?idx \<noteq> EMPTY)" by (simp add: free_at_def)
    from filter_update_count[of ?idx "metadata s" "\<lambda>m. m \<noteq> EMPTY" meta, OF _ this ne] idx lm
    have "length (filter (\<lambda>m. m \<noteq> EMPTY) ((metadata s)[?idx := meta]))
            = Suc (length (filter (\<lambda>m. m \<noteq> EMPTY) (metadata s)))" by simp
    with inv show ?thesis by (simp add: table_inv_def)
  qed
  from inv g lt cnt show ?thesis
    unfolding table_inv_def
    using ok dist by (simp add: lm lt')
qed

lemma clamp_probe_limit_pos: "0 < cap \<Longrightarrow> 0 < clamp_probe_limit cap p"
  by (auto simp: clamp_probe_limit_def Let_def GROUP_SIZE_def)

lemma max_groups_pos: "0 < capacity s \<Longrightarrow> 0 < max_probe_limit s \<Longrightarrow> 0 < max_groups s"
  by (auto simp: max_groups_def Let_def GROUP_SIZE_def div_greater_zero_iff)

lemma table_inv_construct:
  assumes "construct cap d rd hf e0 = Inr s"
  shows "table_inv s"
proof -
  from assms have cap: "0 < cap" and d: "0 < d" "d < 1"
    by (auto simp: construct_def split: if_splits)
  with assms have s: "s = \<lparr> metadata = replicate cap EMPTY, table = replicate cap e0,
        capacity = cap, size_n = 0, max_inserts = cap - nat \<lfloor>d * real cap\<rfloor>, delta = d,
        max_probe_limit = clamp_probe_limit cap (nat \<lfloor>C_const * log 2 (1.0 / d)\<rfloor>),
        max_group_used = 0, salt = rd, hasher = hf \<rparr>"
    by (auto simp: construct_def split: if_splits)
  have "0 < max_groups s"
    by (rule max_groups_pos) (simp_all add: s cap clamp_probe_limit_pos)
  moreover have "free_at s idx" if "idx < cap" for idx
    using that by (simp add: s free_at_def)
  ultimately show ?thesis
    unfolding table_inv_def using cap d by (simp add: s)
qed

lemma table_inv_insert:
  assumes inv: "table_inv s"
  shows "table_inv (snd (insert_kv s k v))"
proof (cases "size_n s < max_inserts s")
  case False
  then show ?thesis using inv by (simp add: insert_kv_def)
next
  case True
  from inv have T: "0 < max_groups s" by (simp add: table_inv_def)
  from insert_kv_cases[OF True T refl refl refl, of k v]
  consider
    (U) g i where "insert_kv s k v = (True, overwrite s (probe (capacity s) (hash_with_salt s k) g i) v)"
  | (P) g i where "g < max_groups s" "i < 16" "free_at s (probe (capacity s) (hash_with_salt s k) g i)"
      "all_before (blocked s k (make_metadata (hash_with_salt s k))) (capacity s) (hash_with_salt s k) g i"
      "insert_kv s k v = (True, store_new s (probe (capacity s) (hash_with_salt s k) g i)
                                 (make_metadata (hash_with_salt s k)) k v g)"
  | (F) "insert_kv s k v = (False, s)"
    by blast
  then show ?thesis
  proof cases
    case U
    with inv show ?thesis by (simp add: table_inv_overwrite)
  next
    case P
    from table_inv_store_new[OF inv refl refl P(1-4) True, of v] P(5) show ?thesis by simp
  next
    case F
    with inv show ?thesis by simp
  qed
qed

lemma reachable_table_inv: "reachable s \<Longrightarrow> table_inv s"
  by (induction rule: reachable.induct) (auto intro: table_inv_construct table_inv_insert)

lemma insert_kv_false_unchanged:
  assumes "table_inv s" "\<not> fst (insert_kv s k v)"
  shows "insert_kv s k v = (False, s)"
proof (cases "size_n s < max_inserts s")
  case False
  then show ?thesis by (simp add: insert_kv_def)
next
  case True
  from assms(1) have T: "0 < max_groups s" by (simp add: table_inv_def)
  from insert_kv_cases[OF True T refl refl refl, of k v] assms(2) show ?thesis by auto
qed

lemma insert_kv_forms:
  assumes "table_inv s"
  shows "snd (insert_kv s k v) = s
       \<or> (\<exists>idx. snd (insert_kv s k v) = overwrite s idx v)
       \<or> (\<exists>idx g. snd (insert_kv s k v) = store_new s idx (make_metadata (hash_with_salt s k)) k v g)"
proof (cases "size_n s < max_inserts s")
  case False
  then show ?thesis by (simp add: insert_kv_def)
next
  case True
  from assms(1) have T: "0 < max_groups s" by (simp add: table_inv_def)
  from insert_kv_cases[OF True T refl refl refl, of k v] show ?thesis
    by (elim disjE exE conjE) (simp; blast)+
qed

lemma insert_kv_static:
  assumes "table_inv s"
  shows "capacity (snd (insert_kv s k v)) = capacity s"
    and "max_inserts (snd (insert_kv s k v)) = max_inserts s"
    and "max_probe_limit (snd (insert_kv s k v)) = max_probe_limit s"
    and "delta (snd (insert_kv s k v)) = delta s"
    and "salt (snd (insert_kv s k v)) = salt s"
    and "hasher (snd (insert_kv s k v)) = hasher s"
    and "max_group_used s \<le> max_group_used (snd (insert_kv s k v))"
  using insert_kv_forms[OF assms, of k v] by auto

lemma insert_kv_true_cases:
  assumes inv: "table_inv s" and ok: "fst (insert_kv s k v)"
  shows "\<exists>idx. idx < capacity s
           \<and> metadata (snd (insert_kv s k v)) ! idx \<noteq> EMPTY
           \<and> table (snd (insert_kv s k v)) ! idx = \<lparr>key = k, val = v\<rparr>"
proof -
  from ok have lt: "size_n s < max_inserts s"
    by (auto simp: insert_kv_def split: if_splits)
  from inv have T: "0 < max_groups s" and cap: "0 < capacity s"
    and lm: "length (metadata s) = capacity s" and ltab: "length (table s) = capacity s"
    by (simp_all add: table_inv_def)
  let ?h = "hash_with_salt s k"
  let ?meta = "make_metadata ?h"
  from insert_kv_cases[OF lt T refl refl refl, of k v] ok
  consider
    (U) g i where "hit_at s k ?meta (probe (capacity s) ?h g i)"
      "insert_kv s k v = (True, overwrite s (probe (capacity s) ?h g i) v)"
  | (P) g i where "insert_kv s k v = (True, store_new s (probe (capacity s) ?h g i) ?meta k v g)"
    by auto
  then show ?thesis
  proof cases
    case U
    let ?idx = "probe (capacity s) ?h g i"
    have idx: "?idx < capacity s" by (rule probe_less[OF cap])
    from U(1) have "metadata s ! ?idx \<noteq> EMPTY"
      using hit_not_free[OF refl U(1)] by (simp add: free_at_def)
    moreover from U(1) idx ltab have "table (overwrite s ?idx v) ! ?idx = \<lparr>key = k, val = v\<rparr>"
      by (simp add: overwrite_def hit_at_def)
    ultimately show ?thesis using U(2) idx by (intro exI[of _ ?idx]) simp
  next
    case P
    let ?idx = "probe (capacity s) ?h g i"
    have idx: "?idx < capacity s" by (rule probe_less[OF cap])
    with lm ltab make_metadata_not_EMPTY[of ?h] P show ?thesis
      by (intro exI[of _ ?idx]) simp
  qed
qed

section \<open>Lookup finds every stored key\<close>

lemma find_group_cases:
  "(find_group s k h meta g = NextGroup \<and> (\<forall>i<16. blocked s k meta (probe (capacity s) h g i)))
   \<or> (find_group s k h meta g = NotPresent
        \<and> (\<exists>i<16. free_at s (probe (capacity s) h g i)
               \<and> (\<forall>j<i. blocked s k meta (probe (capacity s) h g j))))
   \<or> (\<exists>i<16. hit_at s k meta (probe (capacity s) h g i)
        \<and> find_group s k h meta g = Found (probe (capacity s) h g i))"
proof (cases "group_base (capacity s) h g + 16 \<le> capacity s")
  case True
  then have fg: "find_group s k h meta g =
      (case List.find (\<lambda>i. hit_at s k meta (probe (capacity s) h g i)) [0..<16] of
         Some i \<Rightarrow> Found (probe (capacity s) h g i)
       | None \<Rightarrow> if filter (\<lambda>i. free_at s (probe (capacity s) h g i)) [0..<16] \<noteq> []
                 then NotPresent else NextGroup)"
    by (simp add: find_group_def find_simd_def Let_def GROUP_SIZE_def simd_match_view simd_empty_view
        split: option.splits)
  show ?thesis
  proof (cases "List.find (\<lambda>i. hit_at s k meta (probe (capacity s) h g i)) [0..<16]")
    case (Some i)
    then have "i < 16" "hit_at s k meta (probe (capacity s) h g i)"
      by (simp_all add: find_upt_Some)
    with fg Some show ?thesis by auto
  next
    case None
    then have nh: "\<forall>i<16. \<not> hit_at s k meta (probe (capacity s) h g i)"
      by (simp add: find_upt_None)
    show ?thesis
    proof (cases "List.find (\<lambda>i. free_at s (probe (capacity s) h g i)) [0..<16]")
      case nf: None
      then have "\<forall>i<16. \<not> free_at s (probe (capacity s) h g i)"
        by (simp add: find_upt_None)
      moreover from this have "filter (\<lambda>i. free_at s (probe (capacity s) h g i)) [0..<16] = []"
        by (simp add: filter_empty_conv)
      ultimately show ?thesis using fg None nh by (simp add: blocked_def)
    next
      case (Some i)
      then have i: "i < 16" "free_at s (probe (capacity s) h g i)"
        "\<forall>j<i. \<not> free_at s (probe (capacity s) h g j)"
        by (simp_all add: find_upt_Some)
      then have "filter (\<lambda>i. free_at s (probe (capacity s) h g i)) [0..<16] \<noteq> []"
        by (auto simp: filter_empty_conv)
      with fg None have "find_group s k h meta g = NotPresent" by simp
      moreover from i nh have "\<forall>j<i. blocked s k meta (probe (capacity s) h g j)"
        by (simp add: blocked_def)
      ultimately show ?thesis using i by blast
    qed
  qed
next
  case False
  then have "find_group s k h meta g = find_scalar s k meta (group_base (capacity s) h g) [0..<16]"
    by (simp add: find_group_def GROUP_SIZE_def)
  then show ?thesis
    unfolding find_scalar_find blocked_def probe_def
    by (auto simp: find_upt_Some find_upt_None split: option.splits if_splits)
qed

lemma find_loop_find:
  "find_loop s k h meta gs =
     (case List.find (\<lambda>g. find_group s k h meta g \<noteq> NextGroup) gs of
        None \<Rightarrow> None
      | Some g \<Rightarrow> (case find_group s k h meta g of Found idx \<Rightarrow> Some idx | _ \<Rightarrow> None))"
  by (induction gs) (auto split: scan.splits)

lemma find_kv_present:
  assumes inv: "table_inv s" and idx: "idx < capacity s" "\<not> free_at s idx"
    and k: "key (table s ! idx) = k"
  shows "find_kv s k = Some idx"
proof -
  let ?h = "hash_with_salt s k"
  let ?meta = "make_metadata ?h"
  let ?C = "capacity s"
  from inv have cap: "0 < ?C" by (simp add: table_inv_def)
  from inv idx have "stored_ok s idx" by (simp add: table_inv_def)
  with k obtain g i where p: "metadata s ! idx = ?meta" "g \<le> max_group_used s" "i < 16"
    "probe ?C ?h g i = idx" "all_before (\<lambda>j. \<not> free_at s j) ?C ?h g i"
    by (auto simp: stored_ok_def Let_def)
  from p(1) k have hit: "hit_at s k ?meta idx" by (simp add: hit_at_def)
  have uniq: "j = idx" if "hit_at s k ?meta j" "j < ?C" for j
  proof -
    from that(1) have "\<not> free_at s j" by (rule hit_not_free[OF refl])
    moreover from that(1) k have "key (table s ! j) = key (table s ! idx)" by (simp add: hit_at_def)
    ultimately show ?thesis using inv idx that(2) by (simp add: table_inv_def)
  qed
  have found_at: "\<exists>j. find_group s k ?h ?meta g = Found j"
  proof -
    from find_group_cases[of s k ?h ?meta g]
    consider "\<forall>i<16. blocked s k ?meta (probe ?C ?h g i)"
      | i' where "i' < 16" "free_at s (probe ?C ?h g i')" "\<forall>j<i'. blocked s k ?meta (probe ?C ?h g j)"
      | j where "find_group s k ?h ?meta g = Found j"
      by blast
    then show ?thesis
    proof cases
      case 1
      with p(3,4) hit show ?thesis by (auto simp: blocked_def)
    next
      case 2
      consider "i' < i" | "i' = i" | "i < i'" by linarith
      then show ?thesis
      proof cases
        case 1
        with p(5) have "\<not> free_at s (probe ?C ?h g i')" by (simp add: all_before_def)
        with 2(2) show ?thesis by simp
      next
        case 2
        with \<open>free_at s (probe ?C ?h g i')\<close> p(4) idx(2) show ?thesis by simp
      next
        case 3
        with 2(3) have "blocked s k ?meta (probe ?C ?h g i)" by simp
        with p(4) hit show ?thesis by (simp add: blocked_def)
      qed
    next
      case 3
      then show ?thesis by blast
    qed
  qed
  have earlier: "find_group s k ?h ?meta g' = NextGroup \<or> find_group s k ?h ?meta g' = Found idx"
    if "g' \<le> g" for g'
  proof -
    from find_group_cases[of s k ?h ?meta g']
    consider "find_group s k ?h ?meta g' = NextGroup"
      | i' where "find_group s k ?h ?meta g' = NotPresent" "i' < 16" "free_at s (probe ?C ?h g' i')"
          "\<forall>j<i'. blocked s k ?meta (probe ?C ?h g' j)"
      | i' where "i' < 16" "hit_at s k ?meta (probe ?C ?h g' i')"
          "find_group s k ?h ?meta g' = Found (probe ?C ?h g' i')"
      by blast
    then show ?thesis
    proof cases
      case 1
      then show ?thesis by simp
    next
      case 2
      show ?thesis
      proof (cases "g' < g")
        case True
        with p(5) 2(2) have "\<not> free_at s (probe ?C ?h g' i')" by (simp add: all_before_def)
        with 2(3) show ?thesis by simp
      next
        case False
        with that have gg: "g' = g" by simp
        from found_at 2(1) gg show ?thesis by auto
      qed
    next
      case 3
      from uniq[OF 3(2) probe_less[OF cap]] 3(3) show ?thesis by simp
    qed
  qed
  let ?P = "\<lambda>g. find_group s k ?h ?meta g \<noteq> NextGroup"
  from found_at have Pg: "?P g" by auto
  have "\<exists>g0. List.find ?P [0..<max_group_used s + 1] = Some g0"
  proof (cases "List.find ?P [0..<max_group_used s + 1]")
    case None
    from None[unfolded find_upt_None] p(2) have "\<not> ?P g" by simp
    with Pg show ?thesis by simp
  next
    case (Some a)
    then show ?thesis by blast
  qed
  then obtain g0 where g0: "List.find ?P [0..<max_group_used s + 1] = Some g0" by blast
  from g0[unfolded find_upt_Some]
  have g0p: "?P g0" "\<forall>j. 0 \<le> j \<and> j < g0 \<longrightarrow> \<not> ?P j" by blast+
  have "g0 \<le> g"
  proof (rule ccontr)
    assume "\<not> g0 \<le> g"
    then have "g < g0" by simp
    with g0p(2) Pg show False by blast
  qed
  from earlier[OF this] g0p(1) have "find_group s k ?h ?meta g0 = Found idx" by simp
  then show ?thesis
    unfolding find_kv_def Let_def find_loop_find g0 by simp
qed

section \<open>Scalar and SIMD scans of a group\<close>

text \<open>
  \<open>simd_scan_slots\<close> on the slots \<open>base, ..., base + 15\<close> is the SIMD path of the source;
  under the invariant the scalar scan of group 0 gives the same answer.
\<close>

lemma find_filter: "List.find Q (filter P ys) = List.find (\<lambda>y. P y \<and> Q y) ys"
  by (induction ys) auto

lemma find_map: "List.find P (map f xs) = map_option f (List.find (\<lambda>x. P (f x)) xs)"
  by (induction xs) auto

lemma simd_scan_slots_map:
  "simd_scan_slots s k meta (map f xs) =
     (case List.find (\<lambda>i. hit_at s k meta (f i)) xs of
        Some i \<Rightarrow> Found (f i)
      | None \<Rightarrow> if (\<exists>i\<in>set xs. free_at s (f i)) then NotPresent else NextGroup)"
  by (auto simp: simd_scan_slots_def Let_def find_filter find_map hit_at_def free_at_def
      filter_empty_conv split: option.splits)

lemma find_simd_is_simd_scan_slots:
  "find_simd s k meta base = simd_scan_slots s k meta (map (\<lambda>i. base + i) [0..<16])"
  unfolding simd_scan_slots_map
  by (auto simp: find_simd_def Let_def movemask_eq_def GROUP_SIZE_def match_loop_filter
      hit_at_def free_at_def filter_empty_conv split: option.splits)


section \<open>Arithmetic of the derived parameters\<close>

lemma ceil_div16: "(x + 16 - 1) div 16 = nat \<lceil>real x / 16\<rceil>" for x :: nat
proof -
  have "\<lceil>real x / 16\<rceil> = - (- int x div 16)"
    using ceiling_divide_eq_div[of "int x" 16] by simp
  then show ?thesis by linarith
qed


lemma log2_16: "log 2 (16::real) = 4"
proof -
  have "(16::real) = 2 ^ 4" by simp
  then show ?thesis by (simp only: log_pow_cancel)
qed

lemma log2_32: "log 2 (32::real) = 5"
proof -
  have "(32::real) = 2 ^ 5" by simp
  then show ?thesis by (simp only: log_pow_cancel)
qed




section \<open>Evaluation of the examples\<close>

lemmas eval_defs =
  insert_kv_def insert_group0_def hash_with_salt_def make_metadata_def hash_fragment_def
  group_base_def slot_in_group_def GROUP_SIZE_def EMPTY_def OCCUPIED_BIT_def store_new_def
  overwrite_def max_groups_def max_groups_to_check_def candidate_phase_def
  EARLY_EXIT_GROUPS_def movemask_eq_def find_kv_def find_group_def find_simd_def
  ex_hasher_def ex_entry_def upt_rec

lemma ex_new2_construct: "construct 2 (1 / 2) 0 ex_hasher ex_entry = Inr ex_new2"
  by (simp add: construct_def ex_new2_def clamp_probe_limit_def C_const_def GROUP_SIZE_def
      numeral_2_eq_2)

lemma ex_full2_insert: "insert_kv ex_new2 7 1 = (True, ex_full2)"
  by (simp add: ex_new2_def ex_full2_def eval_defs)

lemma ex_full2_reachable: "reachable ex_full2"
proof -
  have "reachable (snd (insert_kv ex_new2 7 1))"
    by (rule reachable_insert[OF reachable_construct[OF ex_new2_construct]])
  then show ?thesis
    unfolding ex_full2_insert snd_conv .
qed



lemma ex_gap2_find: "find_kv ex_gap2 0 = None"
  by (simp add: ex_gap2_def ex_new2_def eval_defs)

lemma ex_gap2_unreachable: "\<not> reachable ex_gap2"
proof
  assume "reachable ex_gap2"
  then have "table_inv ex_gap2" by (rule reachable_table_inv)
  from find_kv_present[OF this, of 1 0] have "find_kv ex_gap2 0 = Some 1"
    by (simp add: ex_gap2_def ex_new2_def free_at_def EMPTY_def)
  with ex_gap2_find show False by simp
qed

lemma ex_new3_construct: "construct 3 (1 / 2) 0 ex_hasher ex_entry = Inr ex_new3"
  by (simp add: construct_def ex_new3_def clamp_probe_limit_def C_const_def GROUP_SIZE_def
      eval_nat_numeral)

lemma ex_one3_insert: "insert_kv ex_new3 0 10 = (True, ex_one3)"
  by (simp add: ex_new3_def ex_one3_def eval_defs)




lemma ex_new40_construct: "construct 40 (1 / 32) 0 ex_hasher ex_entry = Inr ex_new40"
  by (simp add: construct_def ex_new40_def clamp_probe_limit_def C_const_def GROUP_SIZE_def log2_32)

lemma ex_new40_candidates: "length (snd (candidate_phase ex_new40 0)) = 16"
  by (simp add: ex_new40_def eval_defs collect_group_def)

lemma reachable_index_op: "reachable s \<Longrightarrow> reachable (snd (index_op s k dflt))"
  by (auto simp: index_op_def Let_def split: option.splits intro: reachable_insert)

lemma reachable_insert_all: "reachable s \<Longrightarrow> reachable (insert_all s kvs)"
  unfolding insert_all_def
  by (induction kvs arbitrary: s) (auto intro: reachable_insert)

lemma replicate40: "replicate 40 x = [x, x, x, x, x, x, x, x, x, x, x, x, x, x, x, x, x, x, x, x,
   x, x, x, x, x, x, x, x, x, x, x, x, x, x, x, x, x, x, x, x]"
  by (simp add: eval_nat_numeral)

lemma ex_row40_reachable: "reachable ex_row40"
  unfolding ex_row40_def
  by (rule reachable_insert_all[OF reachable_construct[OF ex_new40_construct]])

lemma ex_row40_next:
  "fst (insert_kv ex_row40 640 16)"
  "max_group_used ex_row40 = 0"
  "max_group_used (snd (insert_kv ex_row40 640 16)) = 1"
  by (simp_all add: ex_row40_def insert_all_def ex_keys40_def ex_new40_def eval_defs replicate40
      collect_group_def)

lemma replicate18: "replicate 18 x = [x, x, x, x, x, x, x, x, x, x, x, x, x, x, x, x, x, x]"
  by (simp add: eval_nat_numeral)

lemma ex_new18_construct: "construct 18 (1 / 16) 0 ex_hasher ex_entry = Inr ex_new18"
  by (simp add: construct_def ex_new18_def clamp_probe_limit_def C_const_def GROUP_SIZE_def log2_16
       replicate18)

lemma ex_jam18_insert_all: "insert_all ex_new18 ex_keys18 = ex_jam18"
  by (simp add: insert_all_def ex_keys18_def ex_new18_def ex_jam18_def eval_defs)

lemma ex_jam18_refuses: "insert_kv ex_jam18 288 0 = (False, ex_jam18)"
  by (simp add: ex_new18_def ex_jam18_def eval_defs)

lemma ex_jam18_reachable: "reachable ex_jam18"
  using reachable_insert_all[OF reachable_construct[OF ex_new18_construct], of ex_keys18]
  by (simp only: ex_jam18_insert_all)

lemma ex_one3_reachable: "reachable ex_one3"
proof -
  have "reachable (snd (insert_kv ex_new3 0 10))"
    by (rule reachable_insert[OF reachable_construct[OF ex_new3_construct]])
  then show ?thesis
    unfolding ex_one3_insert snd_conv .
qed

section \<open>Insertion followed by lookup\<close>

text \<open>
  C1. In every reachable state, when \<open>insert(k, v)\<close> returns true, \<open>find(k)\<close> on the resulting
  container returns a non-absent result whose value is \<open>v\<close>. Moreover every occupied slot
  of the resulting container lies at an offset of one of the first \<open>max_group_used + 1\<close>
  groups of the probe sequence of its key, and \<open>find\<close> of that key returns that very slot:
  the depth limit of the lookup never hides a stored key.
\<close>

theorem insert_then_find:
  assumes "reachable s" and "fst (insert_kv s k v)"
  shows "find_value (snd (insert_kv s k v)) k = Some v
       \<and> (\<forall>idx<capacity (snd (insert_kv s k v)).
            metadata (snd (insert_kv s k v)) ! idx \<noteq> EMPTY \<longrightarrow>
              find_kv (snd (insert_kv s k v)) (key (table (snd (insert_kv s k v)) ! idx)) = Some idx
              \<and> (\<exists>g i. g \<le> max_group_used (snd (insert_kv s k v)) \<and> i < GROUP_SIZE \<and>
                    slot_in_group (capacity (snd (insert_kv s k v)))
                      (group_base (capacity (snd (insert_kv s k v)))
                         (hash_with_salt (snd (insert_kv s k v))
                            (key (table (snd (insert_kv s k v)) ! idx))) g) i = idx))"
proof -
  let ?s' = "snd (insert_kv s k v)"
  from assms(1) have inv: "table_inv s" by (rule reachable_table_inv)
  then have inv': "table_inv ?s'" by (rule table_inv_insert)
  have cap: "capacity ?s' = capacity s"
    by (rule insert_kv_static[OF inv])
  from insert_kv_true_cases[OF inv assms(2)] obtain idx where
    idx: "idx < capacity s" "metadata ?s' ! idx \<noteq> EMPTY" "table ?s' ! idx = \<lparr>key = k, val = v\<rparr>"
    by blast
  from idx cap have "find_kv ?s' k = Some idx"
    by (intro find_kv_present[OF inv']) (simp_all add: free_at_def)
  with idx(3) have a: "find_value ?s' k = Some v" by (simp add: find_value_def)
  have b: "find_kv ?s' (key (table ?s' ! j)) = Some j
           \<and> (\<exists>g i. g \<le> max_group_used ?s' \<and> i < GROUP_SIZE \<and>
                 slot_in_group (capacity ?s') (group_base (capacity ?s')
                    (hash_with_salt ?s' (key (table ?s' ! j))) g) i = j)"
    if "j < capacity ?s'" "metadata ?s' ! j \<noteq> EMPTY" for j
  proof -
    from that have nf: "\<not> free_at ?s' j" by (simp add: free_at_def)
    from find_kv_present[OF inv' that(1) nf refl]
    have "find_kv ?s' (key (table ?s' ! j)) = Some j" .
    moreover from inv' that(1) nf have "stored_ok ?s' j" by (simp add: table_inv_def)
    then have "\<exists>g i. g \<le> max_group_used ?s' \<and> i < GROUP_SIZE \<and>
                 slot_in_group (capacity ?s') (group_base (capacity ?s')
                    (hash_with_salt ?s' (key (table ?s' ! j))) g) i = j"
      unfolding stored_ok_def Let_def probe_def GROUP_SIZE_def by blast
    ultimately show ?thesis by blast
  qed
  from a b show ?thesis by blast
qed

text \<open>
  In \<open>ex_row40\<close> the first group of key 640 is full of other keys, so the key goes to the
  second group and raises the high-water mark; \<open>find\<close> still reaches it.
\<close>

theorem insert_then_find_witness:
  "reachable ex_row40 \<and> fst (insert_kv ex_row40 640 16)
   \<and> find_value (snd (insert_kv ex_row40 640 16)) 640 = Some 16"
proof -
  note f = ex_row40_next(1)
  from insert_then_find[OF ex_row40_reachable f] ex_row40_reachable f show ?thesis by blast
qed

section \<open>The high-water mark\<close>

text \<open>
  C2. For every container that was constructed with a capacity \<open>C \<ge> 1\<close> and \<open>\<delta>\<close> in \<open>(0, 1)\<close> and
  then went through any sequence of operations: an \<open>insert\<close> and an \<open>operator[]\<close> leave
  \<open>max_group_used\<close> equal or larger (\<open>find\<close> does not change the container), and
  \<open>max_group_used \<le> total_groups - 1\<close> with
  \<open>total_groups = min (\<lceil>max_probe_limit / 16\<rceil>) (\<lceil>C / 16\<rceil>)\<close>, the value of \<open>max_groups\<close>.
\<close>

theorem high_water_mark:
  assumes "reachable s"
  shows "max_group_used s \<le> max_group_used (snd (insert_kv s k v))
       \<and> max_group_used s \<le> max_group_used (snd (index_op s k v))
       \<and> max_group_used s \<le> max_groups s - 1
       \<and> max_groups s = min (nat \<lceil>real (max_probe_limit s) / 16\<rceil>) (nat \<lceil>real (capacity s) / 16\<rceil>)"
proof -
  from assms have inv: "table_inv s" by (rule reachable_table_inv)
  have a: "max_group_used s \<le> max_group_used (snd (insert_kv s k v))"
    by (rule insert_kv_static[OF inv])
  then have b: "max_group_used s \<le> max_group_used (snd (index_op s k v))"
    by (simp add: index_op_def Let_def split: option.splits)
  from inv have "max_group_used s < max_groups s" by (simp add: table_inv_def)
  then have c: "max_group_used s \<le> max_groups s - 1" by arith
  have d: "max_groups s = min (nat \<lceil>real (max_probe_limit s) / 16\<rceil>) (nat \<lceil>real (capacity s) / 16\<rceil>)"
  proof -
    have "max_groups s = min ((max_probe_limit s + 16 - 1) div 16) ((capacity s + 16 - 1) div 16)"
      unfolding max_groups_def Let_def GROUP_SIZE_def min_def by auto
    then show ?thesis by (simp only: ceil_div16)
  qed
  from a b c d show ?thesis by blast
qed

theorem high_water_mark_witness:
  "reachable ex_row40
   \<and> max_group_used ex_row40 = 0
   \<and> max_group_used (snd (insert_kv ex_row40 640 16)) = 1
   \<and> max_group_used ex_row40 \<le> max_group_used (snd (insert_kv ex_row40 640 16))
   \<and> max_group_used ex_row40 \<le> max_group_used (snd (index_op ex_row40 640 16))
   \<and> max_group_used ex_row40 \<le> max_groups ex_row40 - 1"
proof -
  from high_water_mark[OF ex_row40_reachable, of 640 16] ex_row40_reachable ex_row40_next(2,3)
  show ?thesis by blast
qed

section \<open>When insertion fails\<close>

text \<open>
  C3, as amended. In every reachable state \<open>insert(k, v)\<close> returns false if and only if
  \<open>size \<ge> max_inserts\<close>, or every slot of the first \<open>max_groups\<close> groups of the probe sequence
  of \<open>k\<close> is occupied and none of them holds \<open>k\<close> (no slot there is empty, and none has the
  metadata byte of \<open>k\<close> together with the key \<open>k\<close>). Whenever it returns false the container
  is unchanged.
\<close>

theorem insert_fails_iff:
  assumes "reachable s"
  shows "(\<not> fst (insert_kv s k v) \<longleftrightarrow>
            size_n s \<ge> max_inserts s
            \<or> (\<forall>g<max_groups s. \<forall>i<GROUP_SIZE.
                  blocked s k (make_metadata (hash_with_salt s k))
                    (slot_in_group (capacity s) (group_base (capacity s) (hash_with_salt s k) g) i)))
       \<and> (\<not> fst (insert_kv s k v) \<longrightarrow> snd (insert_kv s k v) = s)"
proof -
  from assms have inv: "table_inv s" by (rule reachable_table_inv)
  then have T: "0 < max_groups s" by (simp add: table_inv_def)
  let ?h = "hash_with_salt s k"
  let ?meta = "make_metadata ?h"
  let ?B = "\<forall>g<max_groups s. \<forall>i<16. blocked s k ?meta (probe (capacity s) ?h g i)"
  have unch: "\<not> fst (insert_kv s k v) \<longrightarrow> snd (insert_kv s k v) = s"
    using insert_kv_false_unchanged[OF inv, of k v] by auto
  have "\<not> fst (insert_kv s k v) \<longleftrightarrow> size_n s \<ge> max_inserts s \<or> ?B"
  proof (cases "size_n s < max_inserts s")
    case False
    then show ?thesis by (simp add: insert_kv_def)
  next
    case True
    from insert_kv_cases[OF True T refl refl refl, of k v]
    consider
      (U) g i where "g < max_groups s" "i < 16" "hit_at s k ?meta (probe (capacity s) ?h g i)"
        "insert_kv s k v = (True, overwrite s (probe (capacity s) ?h g i) v)"
    | (P) g i where "g < max_groups s" "i < 16" "free_at s (probe (capacity s) ?h g i)"
        "insert_kv s k v = (True, store_new s (probe (capacity s) ?h g i) ?meta k v g)"
    | (F) "?B" "insert_kv s k v = (False, s)"
      by blast
    then show ?thesis
    proof cases
      case U
      then have "\<not> ?B" by (auto simp: blocked_def)
      with U(4) True show ?thesis by simp
    next
      case P
      then have "\<not> ?B" by (auto simp: blocked_def)
      with P(4) True show ?thesis by simp
    next
      case F
      then show ?thesis by simp
    qed
  qed
  with unch show ?thesis by (simp add: probe_def GROUP_SIZE_def)
qed

theorem insert_fails_iff_witness:
  "reachable ex_full2 \<and> max_inserts ex_full2 \<le> size_n ex_full2
   \<and> \<not> fst (insert_kv ex_full2 7 9) \<and> snd (insert_kv ex_full2 7 9) = ex_full2"
proof -
  have h: "max_inserts ex_full2 \<le> size_n ex_full2"
    by (simp add: ex_full2_def ex_new2_def)
  from insert_fails_iff[OF ex_full2_reachable, of 7 9] h ex_full2_reachable
  show ?thesis by blast
qed

text \<open>
  The claim as written fails in both directions. \<open>ex_full2\<close> is at its cap and holds key 7 at
  the first slot of the first group of key 7, yet \<open>insert(7, 9)\<close> returns false. \<open>ex_jam18\<close>
  is below its cap (16 of 17), yet \<open>insert(288, 0)\<close> returns false: the only group its
  probe sequence may use is full.
\<close>

theorem insert_fails_iff_counterexample:
  "reachable ex_full2 \<and> max_inserts ex_full2 \<le> size_n ex_full2
   \<and> slot_in_group (capacity ex_full2)
        (group_base (capacity ex_full2) (hash_with_salt ex_full2 7) 0) 0 = 1
   \<and> metadata ex_full2 ! 1 = make_metadata (hash_with_salt ex_full2 7)
   \<and> key (table ex_full2 ! 1) = 7
   \<and> insert_kv ex_full2 7 9 = (False, ex_full2)
   \<and> reachable ex_jam18 \<and> size_n ex_jam18 < max_inserts ex_jam18
   \<and> insert_kv ex_jam18 288 0 = (False, ex_jam18)"
proof -
  have "slot_in_group (capacity ex_full2)
        (group_base (capacity ex_full2) (hash_with_salt ex_full2 7) 0) 0 = 1"
    "metadata ex_full2 ! 1 = make_metadata (hash_with_salt ex_full2 7)"
    "key (table ex_full2 ! 1) = 7"
    "max_inserts ex_full2 \<le> size_n ex_full2"
    "insert_kv ex_full2 7 9 = (False, ex_full2)"
    by (simp_all add: ex_full2_def ex_new2_def eval_defs)
  moreover have "size_n ex_jam18 < max_inserts ex_jam18"
    by (simp add: ex_jam18_def ex_new18_def)
  ultimately show ?thesis
    using ex_full2_reachable ex_jam18_reachable ex_jam18_refuses by blast
qed

section \<open>The size gate\<close>

text \<open>
  C4. When \<open>size \<ge> max_inserts\<close>, \<open>insert\<close> returns false at once and the whole state
  (metadata, entries, size, high-water mark) is the one it was called on, whether or not the
  key is stored; in particular no stored value changes.
\<close>

theorem insert_size_gate:
  "size_n s \<ge> max_inserts s \<Longrightarrow> insert_kv s k v = (False, s)"
  by (simp add: insert_kv_def)

theorem insert_size_gate_witness:
  "max_inserts ex_full2 \<le> size_n ex_full2 \<and> insert_kv ex_full2 7 9 = (False, ex_full2)"
proof -
  have h: "max_inserts ex_full2 \<le> size_n ex_full2"
    by (simp add: ex_full2_def ex_new2_def)
  from insert_size_gate[OF h, of 7 9] h show ?thesis by simp
qed

section \<open>The scalar path for a wrapping first group\<close>




section \<open>The probe limit\<close>




section \<open>Spare capacity\<close>




section \<open>The probe schedule\<close>




section \<open>Insertion at the cap boundary\<close>

text \<open>
  C9, as amended. In every reachable state with \<open>size = max_inserts - 1\<close>, for every key \<open>k\<close>
  that is not stored and whose first \<open>max_groups\<close> probe groups contain an empty slot,
  \<open>insert(k, v)\<close> returns true; afterwards \<open>size = max_inserts\<close> and every further insert
  returns false and leaves the container as it is.
\<close>

theorem insert_at_cap_boundary:
  assumes r: "reachable s"
    and sz: "size_n s + 1 = max_inserts s"
    and absent: "\<forall>idx<capacity s. metadata s ! idx \<noteq> EMPTY \<longrightarrow> key (table s ! idx) \<noteq> k"
    and room: "\<exists>g<max_groups s. \<exists>i<GROUP_SIZE.
                 metadata s ! slot_in_group (capacity s)
                    (group_base (capacity s) (hash_with_salt s k) g) i = EMPTY"
  shows "fst (insert_kv s k v)
       \<and> size_n (snd (insert_kv s k v)) = max_inserts (snd (insert_kv s k v))
       \<and> (\<forall>k' v'. insert_kv (snd (insert_kv s k v)) k' v' = (False, snd (insert_kv s k v)))"
proof -
  let ?h = "hash_with_salt s k"
  let ?meta = "make_metadata ?h"
  from r have inv: "table_inv s" by (rule reachable_table_inv)
  then have T: "0 < max_groups s" and cap: "0 < capacity s" by (simp_all add: table_inv_def)
  from sz have lt: "size_n s < max_inserts s" by simp
  have nohit: "\<not> hit_at s k ?meta idx" if "idx < capacity s" for idx
  proof
    assume hit: "hit_at s k ?meta idx"
    then have "metadata s ! idx \<noteq> EMPTY" using hit_not_free[OF refl hit] by (simp add: free_at_def)
    with absent that have "key (table s ! idx) \<noteq> k" by blast
    with hit show False by (simp add: hit_at_def)
  qed
  from room obtain g0 i0 where room': "g0 < max_groups s" "i0 < 16"
    "free_at s (probe (capacity s) ?h g0 i0)"
    by (auto simp: free_at_def probe_def GROUP_SIZE_def)
  from insert_kv_cases[OF lt T refl refl refl, of k v]
  consider
    (U) g i where "hit_at s k ?meta (probe (capacity s) ?h g i)"
  | (P) g i where "insert_kv s k v = (True, store_new s (probe (capacity s) ?h g i) ?meta k v g)"
  | (F) "\<forall>g<max_groups s. \<forall>i<16. blocked s k ?meta (probe (capacity s) ?h g i)"
    by blast
  then show ?thesis
  proof cases
    case U
    with nohit[OF probe_less[OF cap]] show ?thesis by blast
  next
    case F
    with room' show ?thesis by (auto simp: blocked_def)
  next
    case P
    with sz have "fst (insert_kv s k v)"
      "size_n (snd (insert_kv s k v)) = max_inserts (snd (insert_kv s k v))" by simp_all
    moreover from this(2) have "insert_kv (snd (insert_kv s k v)) k' v' = (False, snd (insert_kv s k v))"
      for k' v' by (simp add: insert_kv_def)
    ultimately show ?thesis by blast
  qed
qed

theorem insert_at_cap_boundary_witness:
  "reachable ex_one3 \<and> size_n ex_one3 + 1 = max_inserts ex_one3
   \<and> metadata ex_one3 = [0x80, EMPTY, EMPTY] \<and> key (table ex_one3 ! 0) = 0
   \<and> metadata ex_one3 ! slot_in_group (capacity ex_one3)
         (group_base (capacity ex_one3) (hash_with_salt ex_one3 1) 0) 0 = EMPTY
   \<and> fst (insert_kv ex_one3 1 11)
   \<and> size_n (snd (insert_kv ex_one3 1 11)) = max_inserts (snd (insert_kv ex_one3 1 11))
   \<and> insert_kv (snd (insert_kv ex_one3 1 11)) 2 12 = (False, snd (insert_kv ex_one3 1 11))"
proof -
  have sz: "size_n ex_one3 + 1 = max_inserts ex_one3"
    by (simp add: ex_one3_def ex_new3_def)
  have absent: "\<forall>idx<capacity ex_one3. metadata ex_one3 ! idx \<noteq> EMPTY \<longrightarrow> key (table ex_one3 ! idx) \<noteq> 1"
    by (auto simp: ex_one3_def ex_new3_def EMPTY_def less_Suc_eq numeral_3_eq_3)
  have stored: "metadata ex_one3 = [0x80, EMPTY, EMPTY]" "key (table ex_one3 ! 0) = 0"
    by (simp_all add: ex_one3_def ex_new3_def)
  have free: "metadata ex_one3 ! slot_in_group (capacity ex_one3)
            (group_base (capacity ex_one3) (hash_with_salt ex_one3 1) 0) 0 = EMPTY"
    by (simp add: ex_one3_def ex_new3_def eval_defs)
  moreover have "0 < max_groups ex_one3" "(0::nat) < GROUP_SIZE"
    by (simp_all add: ex_one3_def ex_new3_def eval_defs)
  ultimately have room: "\<exists>g<max_groups ex_one3. \<exists>i<GROUP_SIZE.
         metadata ex_one3 ! slot_in_group (capacity ex_one3)
            (group_base (capacity ex_one3) (hash_with_salt ex_one3 1) g) i = EMPTY"
    by blast
  from insert_at_cap_boundary[OF ex_one3_reachable sz absent room, of 11]
    ex_one3_reachable sz stored free
  show ?thesis by blast
qed

text \<open>
  \<open>ex_jam18\<close> holds 16 of at most 17 entries, all in the slots 0 to 15, and its probe limit of
  16 allows one group. Key 288 is not stored and starts probing at slot 0, so its insert
  returns false although \<open>size = max_inserts - 1\<close>.
\<close>

theorem insert_at_cap_boundary_counterexample:
  "reachable ex_jam18 \<and> size_n ex_jam18 = max_inserts ex_jam18 - 1
   \<and> 288 \<notin> key ` set (table ex_jam18)
   \<and> insert_kv ex_jam18 288 0 = (False, ex_jam18)"
proof -
  have "size_n ex_jam18 = max_inserts ex_jam18 - 1" "288 \<notin> key ` set (table ex_jam18)"
    by (simp_all add: ex_jam18_def ex_new18_def ex_entry_def)
  with ex_jam18_reachable ex_jam18_refuses show ?thesis by blast
qed

section \<open>The candidate buffer\<close>

text \<open>
  C10. In every call of \<open>insert\<close> the candidate buffer never holds more than 112 entries (at
  most 7 groups of 16 slots are scanned), so every write \<open>candidates[num_candidates++]\<close> goes
  to an index below 128; and the collection is the same for every buffer bound of at least
  112 in the loop condition, so the bound of 128 is never what stops it.
\<close>

theorem candidate_buffer_bound:
  "length (snd (candidate_phase s k)) \<le> 112
   \<and> (\<forall>cap\<ge>112. collect_candidates cap s k (hash_with_salt s k) (make_metadata (hash_with_salt s k))
                      [EARLY_EXIT_GROUPS..<max_groups_to_check s] []
                  = candidate_phase s k)"
proof -
  have len: "16 * length [EARLY_EXIT_GROUPS..<max_groups_to_check s] \<le> 112"
    using max_groups_to_check_le(2)[of s] by (simp add: EARLY_EXIT_GROUPS_def)
  obtain r cands where cp: "candidate_phase s k = (r, cands)" by (cases "candidate_phase s k")
  then have "collect_candidates 128 s k (hash_with_salt s k) (make_metadata (hash_with_salt s k))
               [EARLY_EXIT_GROUPS..<max_groups_to_check s] [] = (r, cands)"
    by (simp add: candidate_phase_def Let_def)
  from collect_candidates_length[OF this] len have a: "length cands \<le> 112" by simp
  have b: "collect_candidates cap s k (hash_with_salt s k) (make_metadata (hash_with_salt s k))
                      [EARLY_EXIT_GROUPS..<max_groups_to_check s] [] = candidate_phase s k"
    if "112 \<le> cap" for cap
    unfolding candidate_phase_def Let_def
    by (rule collect_candidates_cap_irrelevant) (use len that in simp_all)
  from a b cp show ?thesis by simp
qed

theorem candidate_buffer_bound_witness:
  "length (snd (candidate_phase ex_new40 0)) = 16
   \<and> length (snd (candidate_phase ex_new40 0)) \<le> 112
   \<and> (112 :: nat) \<le> 112
   \<and> collect_candidates 112 ex_new40 0 (hash_with_salt ex_new40 0)
        (make_metadata (hash_with_salt ex_new40 0))
        [EARLY_EXIT_GROUPS..<max_groups_to_check ex_new40] []
      = candidate_phase ex_new40 0"
proof -
  have h: "(112 :: nat) \<le> 112" by simp
  from candidate_buffer_bound[of ex_new40 0] h ex_new40_candidates show ?thesis by blast
qed

end
